theory Spec2Isabelle
  imports Main "HOL-Library.Word"
begin

section \<open>Grapheme cluster segmentation (grapheme.go)\<close>

subsection \<open>Basic types\<close>

text \<open>
  A Go \<^verbatim>\<open>rune\<close> is an \<^verbatim>\<open>int32\<close>; no arithmetic that could overflow is
  done on runes here, so they are integers. A \<^verbatim>\<open>byte\<close> is an 8-bit word; a Go
  \<^verbatim>\<open>string\<close> and a \<^verbatim>\<open>[]byte\<close> are both sequences of bytes. A \<^verbatim>\<open>nil\<close>
  slice is the empty list.
\<close>

type_synonym rune = int
type_synonym byte = "8 word"

text \<open>
  Modelled from the spec: the property classes of properties.go, which is not part of
  the sources at hand (section 3 of the specification lists them). The classifier
  \<^verbatim>\<open>property(r)\<close> itself is a parameter \<open>property\<close> of every function that uses it.
\<close>

datatype prclass =
    prAny | prPrepend | prCR | prLF | prControl | prExtend | prRegionalIndicator
  | prSpacingMark | prL | prV | prT | prLV | prLVT | prZWJ | prExtendedPictographic

subsection \<open>The states of the parser and the transition table\<close>

definition grAny :: int where "grAny = 0"
definition grCR :: int where "grCR = 1"
definition grControlLF :: int where "grControlLF = 2"
definition grL :: int where "grL = 3"
definition grLVV :: int where "grLVV = 4"
definition grLVTT :: int where "grLVTT = 5"
definition grPrepend :: int where "grPrepend = 6"
definition grExtendedPictographic :: int where "grExtendedPictographic = 7"
definition grExtendedPictographicZWJ :: int where "grExtendedPictographicZWJ = 8"
definition grRIOdd :: int where "grRIOdd = 9"
definition grRIEven :: int where "grRIEven = 10"

definition grNoBoundary :: int where "grNoBoundary = 0"
definition grBoundary :: int where "grBoundary = 1"

lemmas gr_defs = grAny_def grCR_def grControlLF_def grL_def grLVV_def grLVTT_def
  grPrepend_def grExtendedPictographic_def grExtendedPictographicZWJ_def grRIOdd_def
  grRIEven_def grNoBoundary_def grBoundary_def

definition grTransitions :: "int \<times> prclass \<rightharpoonup> int \<times> int \<times> int" where
  "grTransitions = map_of [
    \<comment> \<open>GB5\<close>
    ((grAny, prCR), (grCR, grBoundary, 50)),
    ((grAny, prLF), (grControlLF, grBoundary, 50)),
    ((grAny, prControl), (grControlLF, grBoundary, 50)),
    \<comment> \<open>GB4\<close>
    ((grCR, prAny), (grAny, grBoundary, 40)),
    ((grControlLF, prAny), (grAny, grBoundary, 40)),
    \<comment> \<open>GB3\<close>
    ((grCR, prLF), (grAny, grNoBoundary, 30)),
    \<comment> \<open>GB6\<close>
    ((grAny, prL), (grL, grBoundary, 9990)),
    ((grL, prL), (grL, grNoBoundary, 60)),
    ((grL, prV), (grLVV, grNoBoundary, 60)),
    ((grL, prLV), (grLVV, grNoBoundary, 60)),
    ((grL, prLVT), (grLVTT, grNoBoundary, 60)),
    \<comment> \<open>GB7\<close>
    ((grAny, prLV), (grLVV, grBoundary, 9990)),
    ((grAny, prV), (grLVV, grBoundary, 9990)),
    ((grLVV, prV), (grLVV, grNoBoundary, 70)),
    ((grLVV, prT), (grLVTT, grNoBoundary, 70)),
    \<comment> \<open>GB8\<close>
    ((grAny, prLVT), (grLVTT, grBoundary, 9990)),
    ((grAny, prT), (grLVTT, grBoundary, 9990)),
    ((grLVTT, prT), (grLVTT, grNoBoundary, 80)),
    \<comment> \<open>GB9\<close>
    ((grAny, prExtend), (grAny, grNoBoundary, 90)),
    ((grAny, prZWJ), (grAny, grNoBoundary, 90)),
    \<comment> \<open>GB9a\<close>
    ((grAny, prSpacingMark), (grAny, grNoBoundary, 91)),
    \<comment> \<open>GB9b\<close>
    ((grAny, prPrepend), (grPrepend, grBoundary, 9990)),
    ((grPrepend, prAny), (grAny, grNoBoundary, 92)),
    \<comment> \<open>GB11\<close>
    ((grAny, prExtendedPictographic), (grExtendedPictographic, grBoundary, 9990)),
    ((grExtendedPictographic, prExtend), (grExtendedPictographic, grNoBoundary, 110)),
    ((grExtendedPictographic, prZWJ), (grExtendedPictographicZWJ, grNoBoundary, 110)),
    ((grExtendedPictographicZWJ, prExtendedPictographic),
       (grExtendedPictographic, grNoBoundary, 110)),
    \<comment> \<open>GB12 / GB13\<close>
    ((grAny, prRegionalIndicator), (grRIOdd, grBoundary, 9990)),
    ((grRIOdd, prRegionalIndicator), (grRIEven, grNoBoundary, 120)),
    ((grRIEven, prRegionalIndicator), (grRIOdd, grBoundary, 120))]"

subsection \<open>The transition resolver\<close>

definition transitionGraphemeState :: "(rune \<Rightarrow> prclass) \<Rightarrow> int \<Rightarrow> rune \<Rightarrow> int \<times> bool" where
  "transitionGraphemeState property state r =
     (let nextProperty = property r in
      case grTransitions (state, nextProperty) of
        Some transition \<Rightarrow> (fst transition, fst (snd transition) = grBoundary)
      | None \<Rightarrow>
         (case (grTransitions (state, prAny), grTransitions (grAny, nextProperty)) of
            (Some transAnyProp, Some transAnyState) \<Rightarrow>
              (fst transAnyState,
               if snd (snd transAnyProp) < snd (snd transAnyState)
               then fst (snd transAnyProp) = grBoundary
               else fst (snd transAnyState) = grBoundary)
          | (Some transAnyProp, None) \<Rightarrow> (fst transAnyProp, fst (snd transAnyProp) = grBoundary)
          | (None, Some transAnyState) \<Rightarrow>
              (fst transAnyState, fst (snd transAnyState) = grBoundary)
          | (None, None) \<Rightarrow> (grAny, True)))"

subsection \<open>UTF-8, as package unicode/utf8 and the Go language define it\<close>

text \<open>
  The library routines the program calls. Masks and shifts of the library are written
  as \<open>mod\<close>, \<open>div\<close> and multiplication on the (non-negative) values they act on.
\<close>

definition RuneError :: rune where "RuneError = 0xFFFD"

text \<open>
  \<^verbatim>\<open>utf8.DecodeRune\<close>: the first rune of the buffer and its width in bytes;
  (RuneError, 0) for an empty buffer and (RuneError, 1) for an invalid or short
  encoding.
\<close>

definition DecodeRune :: "byte list \<Rightarrow> rune \<times> nat" where
  "DecodeRune p =
     (case p of
        [] \<Rightarrow> (RuneError, 0)
      | p0 # ps \<Rightarrow>
         (let x = uint p0; n = length p in
          if x < 0x80 then (x, 1)
          else if x < 0xC2 \<or> 0xF5 \<le> x then (RuneError, 1)
          else
            let sz = (if x < 0xE0 then 2 else if x < 0xF0 then 3 else (4::nat));
                lo = (if x = 0xE0 then 0xA0 else if x = 0xF0 then 0x90 else (0x80::int));
                hi = (if x = 0xED then 0x9F else if x = 0xF4 then 0x8F else (0xBF::int))
            in
            if n < sz then (RuneError, 1)
            else
              let b1 = uint (p ! 1) in
              if b1 < lo \<or> hi < b1 then (RuneError, 1)
              else if sz \<le> 2 then ((x mod 32) * 64 + b1 mod 64, 2)
              else
                let b2 = uint (p ! 2) in
                if b2 < 0x80 \<or> 0xBF < b2 then (RuneError, 1)
                else if sz \<le> 3 then ((x mod 16) * 4096 + (b1 mod 64) * 64 + b2 mod 64, 3)
                else
                  let b3 = uint (p ! 3) in
                  if b3 < 0x80 \<or> 0xBF < b3 then (RuneError, 1)
                  else ((x mod 8) * 262144 + (b1 mod 64) * 4096 + (b2 mod 64) * 64
                          + b3 mod 64, 4)))"

definition DecodeRuneInString :: "byte list \<Rightarrow> rune \<times> nat" where
  "DecodeRuneInString s = DecodeRune s"

text \<open>\<^verbatim>\<open>utf8.RuneLen\<close>: the number of bytes of the encoding, -1 for an invalid rune.\<close>

definition RuneLen :: "rune \<Rightarrow> int" where
  "RuneLen r =
     (if r < 0 then -1
      else if r < 0x80 then 1
      else if r < 0x800 then 2
      else if 0xD800 \<le> r \<and> r \<le> 0xDFFF then -1
      else if r < 0x10000 then 3
      else if r \<le> 0x10FFFF then 4
      else -1)"

text \<open>
  The conversion \<^verbatim>\<open>string(rs)\<close> of a rune slice: the concatenation of the UTF-8
  encodings of the runes, an invalid rune being encoded as U+FFFD.
\<close>

definition EncodeRune :: "rune \<Rightarrow> byte list" where
  "EncodeRune r =
     (if 0 \<le> r \<and> r < 0x80 then [of_int r]
      else if 0 \<le> r \<and> r < 0x800 then [of_int (0xC0 + r div 64), of_int (0x80 + r mod 64)]
      else if r < 0 \<or> 0x10FFFF < r \<or> (0xD800 \<le> r \<and> r \<le> 0xDFFF) then [0xEF, 0xBF, 0xBD]
      else if r < 0x10000 then
        [of_int (0xE0 + r div 4096), of_int (0x80 + (r div 64) mod 64), of_int (0x80 + r mod 64)]
      else
        [of_int (0xF0 + r div 262144), of_int (0x80 + (r div 4096) mod 64),
         of_int (0x80 + (r div 64) mod 64), of_int (0x80 + r mod 64)])"

definition string_of_runes :: "rune list \<Rightarrow> byte list" where
  "string_of_runes rs = concat (map EncodeRune rs)"

lemma DecodeRune_width_pos: "p \<noteq> [] \<Longrightarrow> 0 < snd (DecodeRune p)"
  by (cases p) (simp_all add: DecodeRune_def Let_def)

lemma DecodeRune_width_le: "snd (DecodeRune p) \<le> length p"
  by (cases p) (auto simp: DecodeRune_def Let_def Suc_le_eq)

text \<open>
  \<^verbatim>\<open>for pos, r := range s\<close>: the byte offset and the value of each rune of the
  string, an invalid byte giving U+FFFD and advancing by one byte.
\<close>

function rangeString :: "int \<Rightarrow> byte list \<Rightarrow> (int \<times> rune) list" where
  "rangeString pos s =
     (if s = [] then []
      else (pos, fst (DecodeRuneInString s))
             # rangeString (pos + int (snd (DecodeRuneInString s)))
                 (drop (snd (DecodeRuneInString s)) s))"
  by pat_completeness auto
termination
  by (relation "measure (\<lambda>(pos, s). length s)")
     (use DecodeRune_width_pos in \<open>auto simp: DecodeRuneInString_def\<close>)

text \<open>\<^verbatim>\<open>utf8.RuneCountInString\<close>: invalid bytes count as one rune of width 1.\<close>

function RuneCountInString :: "byte list \<Rightarrow> nat" where
  "RuneCountInString s =
     (if s = [] then 0
      else Suc (RuneCountInString (drop (snd (DecodeRuneInString s)) s)))"
  by pat_completeness auto
termination
  by (relation "measure length")
     (use DecodeRune_width_pos in \<open>auto simp: DecodeRuneInString_def\<close>)

declare rangeString.simps [simp del] RuneCountInString.simps [simp del]

subsection \<open>The iterator\<close>

record Graphemes =
  codePoints :: "rune list"
  indices :: "int list"
  start :: nat
  end' :: nat
  pos :: nat
  state :: int

datatype ('a, 'b) loop = Break 'a | Continue 'b

text \<open>
  The body of the range loop of \<^verbatim>\<open>NewGraphemes\<close>, with its counter \<open>i\<close>. The
  slices have been made with \<open>l\<close> and \<open>l + 1\<close> elements, where \<open>l\<close> is the rune
  count, so every write is in range (lemma \<open>NewGraphemes_fill_eq\<close> below).
\<close>

fun NewGraphemes_fill ::
  "(int \<times> rune) list \<Rightarrow> nat \<Rightarrow> rune list \<times> int list \<Rightarrow> rune list \<times> int list" where
  "NewGraphemes_fill [] i (cps, idx) = (cps, idx)"
| "NewGraphemes_fill ((p, r) # rest) i (cps, idx) =
     NewGraphemes_fill rest (i + 1) (cps[i := r], idx[i := p])"

text \<open>One iteration of the loop of \<^verbatim>\<open>Next\<close>, entered with \<open>pos \<le> len(codePoints)\<close>.\<close>

definition Next_iter :: "(rune \<Rightarrow> prclass) \<Rightarrow> Graphemes \<Rightarrow> (Graphemes, Graphemes) loop" where
  "Next_iter property g =
     (if pos g = length (codePoints g) then Break (g\<lparr>end' := pos g, pos := pos g + 1\<rparr>)
      else
        let t = transitionGraphemeState property (state g) (codePoints g ! pos g);
            g1 = g\<lparr>state := fst t\<rparr>;
            boundary = snd t
        in if pos g1 = 0 \<or> boundary then Break (g1\<lparr>end' := pos g1, pos := pos g1 + 1\<rparr>)
           else Continue (g1\<lparr>pos := pos g1 + 1\<rparr>))"

lemma Next_iter_Continue:
  "Next_iter property g = Continue g' \<Longrightarrow>
     pos g' = Suc (pos g) \<and> codePoints g' = codePoints g \<and> pos g \<noteq> length (codePoints g)"
  by (auto simp: Next_iter_def Let_def split: if_splits)

function Next_loop :: "(rune \<Rightarrow> prclass) \<Rightarrow> Graphemes \<Rightarrow> Graphemes" where
  "Next_loop property g =
     (if pos g \<le> length (codePoints g) then
        (case Next_iter property g of
           Break g' \<Rightarrow> g'
         | Continue g' \<Rightarrow> Next_loop property g')
      else g)"
  by pat_completeness auto
termination
  by (relation "measure (\<lambda>(property, g). length (codePoints g) + 1 - pos g)")
     (auto dest!: Next_iter_Continue)

declare Next_loop.simps [simp del]

definition Next :: "(rune \<Rightarrow> prclass) \<Rightarrow> Graphemes \<Rightarrow> bool \<times> Graphemes" where
  "Next property g =
     (let g' = Next_loop property (g\<lparr>start := end' g\<rparr>) in (start g' \<noteq> end' g', g'))"

definition NewGraphemes :: "(rune \<Rightarrow> prclass) \<Rightarrow> byte list \<Rightarrow> Graphemes" where
  "NewGraphemes property s =
     (let l = RuneCountInString s;
          filled = NewGraphemes_fill (rangeString 0 s) 0 (replicate l 0, replicate (l + 1) 0);
          g = \<lparr>codePoints = fst filled,
               indices = (snd filled)[l := int (length s)],
               start = 0, end' = 0, pos = 0, state = 0\<rparr>
      in snd (Next property g))"

text \<open>The loop of \<^verbatim>\<open>NewGraphemesFromRunes\<close>: returns the indices and the final \<open>pos\<close>.\<close>

fun NewGraphemesFromRunes_fill :: "rune list \<Rightarrow> nat \<Rightarrow> int \<Rightarrow> int list \<Rightarrow> int list \<times> int" where
  "NewGraphemesFromRunes_fill [] i p idx = (idx, p)"
| "NewGraphemesFromRunes_fill (r # rs) i p idx =
     NewGraphemesFromRunes_fill rs (i + 1) (p + RuneLen r) (idx[i := p])"

definition NewGraphemesFromRunes :: "(rune \<Rightarrow> prclass) \<Rightarrow> rune list \<Rightarrow> Graphemes" where
  "NewGraphemesFromRunes property rs =
     (let filled = NewGraphemesFromRunes_fill rs 0 0 (replicate (length rs + 1) 0);
          idx = fst filled;
          g = \<lparr>codePoints = rs,
               indices = idx[length idx - 1 := snd filled],
               start = 0, end' = 0, pos = 0, state = 0\<rparr>
      in snd (Next property g))"

text \<open>
  The accessors. A slice expression or an index out of range is a run-time panic in
  Go, which the model returns as an error value.
\<close>

datatype panic = IndexOutOfRange | SliceBoundsOutOfRange

definition slice :: "'a list \<Rightarrow> nat \<Rightarrow> nat \<Rightarrow> panic + 'a list" where
  "slice xs i j =
     (if i \<le> j \<and> j \<le> length xs then Inr (take (j - i) (drop i xs))
      else Inl SliceBoundsOutOfRange)"

definition Runes :: "Graphemes \<Rightarrow> panic + rune list" where
  "Runes g = (if start g = end' g then Inr [] else slice (codePoints g) (start g) (end' g))"

definition Str :: "Graphemes \<Rightarrow> panic + byte list" where
  "Str g =
     (if start g = end' g then Inr []
      else case slice (codePoints g) (start g) (end' g) of
             Inl e \<Rightarrow> Inl e
           | Inr rs \<Rightarrow> Inr (string_of_runes rs))"

definition Bytes :: "Graphemes \<Rightarrow> panic + byte list" where
  "Bytes g =
     (if start g = end' g then Inr []
      else case slice (codePoints g) (start g) (end' g) of
             Inl e \<Rightarrow> Inl e
           | Inr rs \<Rightarrow> Inr (string_of_runes rs))"

definition Positions :: "Graphemes \<Rightarrow> panic + int \<times> int" where
  "Positions g =
     (if start g < length (indices g) \<and> end' g < length (indices g)
      then Inr (indices g ! start g, indices g ! end' g)
      else Inl IndexOutOfRange)"

definition Reset :: "(rune \<Rightarrow> prclass) \<Rightarrow> Graphemes \<Rightarrow> Graphemes" where
  "Reset property g =
     snd (Next property (g\<lparr>start := 0, end' := 0, pos := 0, state := grAny\<rparr>))"

text \<open>
  Draining: \<^verbatim>\<open>for g.Next() { ... }\<close>, as \<^verbatim>\<open>GraphemeClusterCount\<close> and the
  tests do it. The result lists the iterator as it stands after each call of
  \<^verbatim>\<open>Next\<close> that returned true; the accessors are then applied to these.
\<close>

lemma Next_loop_codePoints: "codePoints (Next_loop property g) = codePoints g"
proof (induction property g rule: Next_loop.induct)
  case (1 property g)
  show ?case
  proof (cases "Next_iter property g")
    case (Break g')
    then have "codePoints g' = codePoints g"
      by (auto simp: Next_iter_def Let_def split: if_splits)
    with Break show ?thesis by (simp add: Next_loop.simps [of property g])
  next
    case (Continue g')
    with 1 Next_iter_Continue [OF Continue] show ?thesis
      by (simp add: Next_loop.simps [of property g])
  qed
qed

lemma Next_loop_pos:
  "pos g \<le> length (codePoints g) \<Longrightarrow>
     pos g < pos (Next_loop property g) \<and> pos (Next_loop property g) \<le> length (codePoints g) + 1"
proof (induction property g rule: Next_loop.induct)
  case (1 property g)
  show ?case
  proof (cases "Next_iter property g")
    case (Break g')
    then have "pos g' = Suc (pos g)"
      by (auto simp: Next_iter_def Let_def split: if_splits)
    with Break 1(2) show ?thesis by (simp add: Next_loop.simps [of property g])
  next
    case (Continue g')
    note c = Next_iter_Continue [OF Continue]
    from c 1(2) have "pos g' \<le> length (codePoints g')" by simp
    with 1(1) [OF 1(2) Continue] c Continue 1(2) show ?thesis
      by (simp add: Next_loop.simps [of property g])
  qed
qed

function drain :: "(rune \<Rightarrow> prclass) \<Rightarrow> Graphemes \<Rightarrow> Graphemes list" where
  "drain property g =
     (if fst (Next property g) then snd (Next property g) # drain property (snd (Next property g))
      else [])"
  by pat_completeness auto
termination
proof (relation "measure (\<lambda>(property, g). length (codePoints g) + 1 - pos g)")
  fix property g
  assume more: "fst (Next property g)"
  let ?g = "g\<lparr>start := end' g\<rparr>"
  have "pos g \<le> length (codePoints g)"
  proof (rule ccontr)
    assume "\<not> pos g \<le> length (codePoints g)"
    then have "Next_loop property ?g = ?g" by (simp add: Next_loop.simps [of property ?g])
    with more show False by (simp add: Next_def)
  qed
  with Next_loop_pos [of ?g property] Next_loop_codePoints [of property ?g]
  show "((property, snd (Next property g)), (property, g))
          \<in> measure (\<lambda>(property, g). length (codePoints g) + 1 - pos g)"
    by (auto simp: Next_def Let_def)
qed simp

declare drain.simps [simp del]

definition GraphemeClusterCount :: "(rune \<Rightarrow> prclass) \<Rightarrow> byte list \<Rightarrow> int" where
  "GraphemeClusterCount property s = int (length (drain property (NewGraphemes property s)))"

subsection \<open>The streaming functions\<close>

text \<open>
  One iteration of the loop of \<^verbatim>\<open>firstGraphemeCluster\<close>, on the local variables
  \<open>length\<close> (here \<open>n\<close>) and \<open>state\<close>: it returns the result of the function or the
  variables for the next iteration. The loop is entered with \<open>n < len(b)\<close>.
\<close>

definition firstGraphemeCluster_iter ::
  "(rune \<Rightarrow> prclass) \<Rightarrow> byte list \<Rightarrow> nat \<Rightarrow> int \<Rightarrow> (byte list \<times> byte list \<times> int, nat \<times> int) loop"
  where
  "firstGraphemeCluster_iter property b n st =
     (let d = DecodeRune (drop n b);
          t = transitionGraphemeState property st (fst d)
      in if snd t then Break (take n b, drop n b, fst t)
         else
           let n' = n + snd d in
           if length b \<le> n' then Break (b, [], grAny) else Continue (n', fst t))"

lemma firstGraphemeCluster_iter_Continue:
  assumes "firstGraphemeCluster_iter property b n st = Continue (n', st')"
  shows "n < n' \<and> n' < length b"
proof -
  from assms have n': "n' = n + snd (DecodeRune (drop n b))" and lt: "n' < length b"
    by (auto simp: firstGraphemeCluster_iter_def Let_def split: if_splits)
  have "drop n b \<noteq> []"
  proof
    assume "drop n b = []"
    then have "length b \<le> n" by simp
    with n' lt show False by simp
  qed
  from DecodeRune_width_pos [OF this] n' lt show ?thesis by simp
qed

function firstGraphemeCluster_loop ::
  "(rune \<Rightarrow> prclass) \<Rightarrow> byte list \<Rightarrow> nat \<Rightarrow> int \<Rightarrow> byte list \<times> byte list \<times> int" where
  "firstGraphemeCluster_loop property b n st =
     (case firstGraphemeCluster_iter property b n st of
        Break res \<Rightarrow> res
      | Continue v \<Rightarrow> firstGraphemeCluster_loop property b (fst v) (snd v))"
  by pat_completeness auto
termination
proof (relation "measure (\<lambda>(property, b, n, st). length b - n)")
  fix property b n st v
  assume "firstGraphemeCluster_iter property b n st = Continue v"
  then have "firstGraphemeCluster_iter property b n st = Continue (fst v, snd v)" by simp
  from firstGraphemeCluster_iter_Continue [OF this]
  show "((property, b, fst v, snd v), (property, b, n, st))
          \<in> measure (\<lambda>(property, b, n, st). length b - n)"
    by (auto simp: case_prod_beta)
qed simp

declare firstGraphemeCluster_loop.simps [simp del]

definition firstGraphemeCluster ::
  "(rune \<Rightarrow> prclass) \<Rightarrow> byte list \<Rightarrow> int \<Rightarrow> byte list \<times> byte list \<times> int" where
  "firstGraphemeCluster property b st =
     (if length b = 0 then ([], [], 0)
      else
        let d = DecodeRune b; r = fst d; n = snd d in
        if length b \<le> n then (b, [], grAny)
        else
          let st1 = (if st < 0 then fst (transitionGraphemeState property grAny r) else st)
          in firstGraphemeCluster_loop property b n st1)"

text \<open>The same function on a string; the types coincide in the model.\<close>

definition firstGraphemeClusterInString_iter ::
  "(rune \<Rightarrow> prclass) \<Rightarrow> byte list \<Rightarrow> nat \<Rightarrow> int \<Rightarrow> (byte list \<times> byte list \<times> int, nat \<times> int) loop"
  where
  "firstGraphemeClusterInString_iter property str n st =
     (let d = DecodeRuneInString (drop n str);
          t = transitionGraphemeState property st (fst d)
      in if snd t then Break (take n str, drop n str, fst t)
         else
           let n' = n + snd d in
           if length str \<le> n' then Break (str, [], grAny) else Continue (n', fst t))"

lemma firstGraphemeClusterInString_iter_eq:
  "firstGraphemeClusterInString_iter = firstGraphemeCluster_iter"
  by (intro ext)
     (simp add: firstGraphemeClusterInString_iter_def firstGraphemeCluster_iter_def
        DecodeRuneInString_def)

function firstGraphemeClusterInString_loop ::
  "(rune \<Rightarrow> prclass) \<Rightarrow> byte list \<Rightarrow> nat \<Rightarrow> int \<Rightarrow> byte list \<times> byte list \<times> int" where
  "firstGraphemeClusterInString_loop property str n st =
     (case firstGraphemeClusterInString_iter property str n st of
        Break res \<Rightarrow> res
      | Continue v \<Rightarrow> firstGraphemeClusterInString_loop property str (fst v) (snd v))"
  by pat_completeness auto
termination
proof (relation "measure (\<lambda>(property, str, n, st). length str - n)")
  fix property str n st v
  assume "firstGraphemeClusterInString_iter property str n st = Continue v"
  then have "firstGraphemeCluster_iter property str n st = Continue (fst v, snd v)"
    by (simp add: firstGraphemeClusterInString_iter_eq)
  from firstGraphemeCluster_iter_Continue [OF this]
  show "((property, str, fst v, snd v), (property, str, n, st))
          \<in> measure (\<lambda>(property, str, n, st). length str - n)"
    by (auto simp: case_prod_beta)
qed simp

declare firstGraphemeClusterInString_loop.simps [simp del]

definition firstGraphemeClusterInString ::
  "(rune \<Rightarrow> prclass) \<Rightarrow> byte list \<Rightarrow> int \<Rightarrow> byte list \<times> byte list \<times> int" where
  "firstGraphemeClusterInString property str st =
     (if length str = 0 then ([], [], 0)
      else
        let d = DecodeRuneInString str; r = fst d; n = snd d in
        if length str \<le> n then (str, [], grAny)
        else
          let st1 = (if st < 0 then fst (transitionGraphemeState property grAny r) else st)
          in firstGraphemeClusterInString_loop property str n st1)"

text \<open>
  A small classifier for the worked examples: it agrees with the Unicode grapheme
  break property on the code points it names and maps every other one to \<open>prAny\<close>.
\<close>

definition sample_property :: "rune \<Rightarrow> prclass" where
  "sample_property r =
     (if r = 0x0D then prCR
      else if r = 0x0A then prLF
      else if 0x0300 \<le> r \<and> r \<le> 0x036F then prExtend
      else if r = 0x200D then prZWJ
      else if 0x1100 \<le> r \<and> r \<le> 0x115F then prL
      else if 0x1F1E6 \<le> r \<and> r \<le> 0x1F1FF then prRegionalIndicator
      else prAny)"

text \<open>
  What holds of an iterator after its constructor and after every call of
  \<^verbatim>\<open>Next\<close>: the scan position is one ahead of the end of the current cluster.
\<close>

definition iter_inv :: "Graphemes \<Rightarrow> bool" where
  "iter_inv g \<longleftrightarrow>
     start g \<le> end' g \<and> pos g = Suc (end' g) \<and> end' g \<le> length (codePoints g)
     \<and> length (indices g) = Suc (length (codePoints g))"

text \<open>\<^verbatim>\<open>utf8.ValidRune\<close>: the Unicode scalar values.\<close>

definition ValidRune :: "rune \<Rightarrow> bool" where
  "ValidRune r \<longleftrightarrow> (0 \<le> r \<and> r < 0xD800) \<or> (0xDFFF < r \<and> r \<le> 0x10FFFF)"


text \<open>
  The byte offsets that the loop of \<^verbatim>\<open>NewGraphemesFromRunes\<close> stores for a rune
  slice when it starts at offset \<open>p\<close>.
\<close>

fun rune_offsets :: "int \<Rightarrow> rune list \<Rightarrow> int list" where
  "rune_offsets p [] = []"
| "rune_offsets p (r # rs) = p # rune_offsets (p + RuneLen r) rs"

text \<open>
  \<open>tiles a rs b\<close>: the half-open ranges \<open>rs\<close>, in order, are non-empty, each starts
  where the one before ends, the first starts at \<open>a\<close> and the last ends at \<open>b\<close>
  (so they cover \<open>[a, b)\<close> without gaps or overlaps).
\<close>

fun tiles :: "'a::linorder \<Rightarrow> ('a \<times> 'a) list \<Rightarrow> 'a \<Rightarrow> bool" where
  "tiles a [] b \<longleftrightarrow> a = b"
| "tiles a ((x, y) # rs) b \<longleftrightarrow> x = a \<and> x < y \<and> tiles y rs b"

subsection \<open>The loops with a step budget\<close>

text \<open>
  The same loops, built from the same loop bodies, with a budget of steps: every
  iteration of a scan loop costs one unit, and so does every call of \<^verbatim>\<open>Next\<close>
  in a drain. A run that exceeds its budget yields \<open>None\<close>; otherwise the result
  comes with the budget that is left.
\<close>

fun Next_loop_fuel ::
  "nat \<Rightarrow> (rune \<Rightarrow> prclass) \<Rightarrow> Graphemes \<Rightarrow> (Graphemes \<times> nat) option" where
  "Next_loop_fuel 0 property g =
     (if pos g \<le> length (codePoints g) then None else Some (g, 0))"
| "Next_loop_fuel (Suc fuel) property g =
     (if pos g \<le> length (codePoints g) then
        (case Next_iter property g of
           Break g' \<Rightarrow> Some (g', fuel)
         | Continue g' \<Rightarrow> Next_loop_fuel fuel property g')
      else Some (g, Suc fuel))"

definition Next_fuel ::
  "nat \<Rightarrow> (rune \<Rightarrow> prclass) \<Rightarrow> Graphemes \<Rightarrow> ((bool \<times> Graphemes) \<times> nat) option" where
  "Next_fuel fuel property g =
     (case Next_loop_fuel fuel property (g\<lparr>start := end' g\<rparr>) of
        None \<Rightarrow> None
      | Some r \<Rightarrow> Some ((start (fst r) \<noteq> end' (fst r), fst r), snd r))"

lemma Next_loop_fuel_le:
  "Next_loop_fuel fuel property g = Some r \<Longrightarrow> snd r \<le> fuel"
proof (induction fuel arbitrary: g)
  case 0
  then show ?case by (auto split: if_splits)
next
  case (Suc fuel)
  show ?case
  proof (cases "pos g \<le> length (codePoints g)")
    case False
    with Suc.prems show ?thesis by auto
  next
    case True
    show ?thesis
    proof (cases "Next_iter property g")
      case (Break g')
      with True Suc.prems show ?thesis by auto
    next
      case (Continue g')
      with True Suc.prems have "Next_loop_fuel fuel property g' = Some r" by simp
      from Suc.IH [OF this] show ?thesis by simp
    qed
  qed
qed

function drain_fuel :: "nat \<Rightarrow> (rune \<Rightarrow> prclass) \<Rightarrow> Graphemes \<Rightarrow> Graphemes list option" where
  "drain_fuel 0 property g = None"
| "drain_fuel (Suc fuel) property g =
     (case Next_fuel fuel property g of
        None \<Rightarrow> None
      | Some r \<Rightarrow>
          if fst (fst r)
          then map_option ((#) (snd (fst r))) (drain_fuel (snd r) property (snd (fst r)))
          else Some [])"
  by pat_completeness auto
termination
proof (relation "measure (\<lambda>(fuel, property, g). fuel)")
  fix fuel property g r
  assume "Next_fuel fuel property g = Some r"
  then obtain r' where "Next_loop_fuel fuel property (g\<lparr>start := end' g\<rparr>) = Some r'"
    and "snd r = snd r'"
    by (auto simp: Next_fuel_def split: option.splits)
  with Next_loop_fuel_le [of fuel property "g\<lparr>start := end' g\<rparr>" r']
  show "((snd r, property, snd (fst r)), (Suc fuel, property, g))
          \<in> measure (\<lambda>(fuel, property, g). fuel)"
    by simp
qed simp

fun firstGraphemeCluster_loop_fuel ::
  "nat \<Rightarrow> (rune \<Rightarrow> prclass) \<Rightarrow> byte list \<Rightarrow> nat \<Rightarrow> int
     \<Rightarrow> ((byte list \<times> byte list \<times> int) \<times> nat) option" where
  "firstGraphemeCluster_loop_fuel 0 property b n st = None"
| "firstGraphemeCluster_loop_fuel (Suc fuel) property b n st =
     (case firstGraphemeCluster_iter property b n st of
        Break res \<Rightarrow> Some (res, fuel)
      | Continue v \<Rightarrow> firstGraphemeCluster_loop_fuel fuel property b (fst v) (snd v))"

definition firstGraphemeCluster_fuel ::
  "nat \<Rightarrow> (rune \<Rightarrow> prclass) \<Rightarrow> byte list \<Rightarrow> int
     \<Rightarrow> ((byte list \<times> byte list \<times> int) \<times> nat) option" where
  "firstGraphemeCluster_fuel fuel property b st =
     (if length b = 0 then Some (([], [], 0), fuel)
      else
        let d = DecodeRune b; r = fst d; n = snd d in
        if length b \<le> n then Some ((b, [], grAny), fuel)
        else
          let st1 = (if st < 0 then fst (transitionGraphemeState property grAny r) else st)
          in firstGraphemeCluster_loop_fuel fuel property b n st1)"

fun firstGraphemeClusterInString_loop_fuel ::
  "nat \<Rightarrow> (rune \<Rightarrow> prclass) \<Rightarrow> byte list \<Rightarrow> nat \<Rightarrow> int
     \<Rightarrow> ((byte list \<times> byte list \<times> int) \<times> nat) option" where
  "firstGraphemeClusterInString_loop_fuel 0 property str n st = None"
| "firstGraphemeClusterInString_loop_fuel (Suc fuel) property str n st =
     (case firstGraphemeClusterInString_iter property str n st of
        Break res \<Rightarrow> Some (res, fuel)
      | Continue v \<Rightarrow> firstGraphemeClusterInString_loop_fuel fuel property str (fst v) (snd v))"

definition firstGraphemeClusterInString_fuel ::
  "nat \<Rightarrow> (rune \<Rightarrow> prclass) \<Rightarrow> byte list \<Rightarrow> int
     \<Rightarrow> ((byte list \<times> byte list \<times> int) \<times> nat) option" where
  "firstGraphemeClusterInString_fuel fuel property str st =
     (if length str = 0 then Some (([], [], 0), fuel)
      else
        let d = DecodeRuneInString str; r = fst d; n = snd d in
        if length str \<le> n then Some ((str, [], grAny), fuel)
        else
          let st1 = (if st < 0 then fst (transitionGraphemeState property grAny r) else st)
          in firstGraphemeClusterInString_loop_fuel fuel property str n st1)"

text \<open>
  The byte offsets that \<^verbatim>\<open>NewGraphemes\<close> stores in \<open>indices\<close>: the offset of
  every rune of the string, then the length of the string.
\<close>

definition byte_offsets :: "byte list \<Rightarrow> int list" where
  "byte_offsets s = map fst (rangeString 0 s) @ [int (length s)]"

subsection \<open>The shape of the results of the streaming function\<close>

lemma firstGraphemeClusterInString_loop_eq:
  "firstGraphemeClusterInString_loop property str n st = firstGraphemeCluster_loop property str n st"
proof (induction property str n st rule: firstGraphemeCluster_loop.induct)
  case (1 property b n st)
  show ?case
  proof (cases "firstGraphemeCluster_iter property b n st")
    case (Break res)
    then show ?thesis
      by (simp add: firstGraphemeClusterInString_loop.simps [of property b n st]
          firstGraphemeCluster_loop.simps [of property b n st]
          firstGraphemeClusterInString_iter_eq)
  next
    case (Continue v)
    with 1 [OF Continue] show ?thesis
      by (simp add: firstGraphemeClusterInString_loop.simps [of property b n st]
          firstGraphemeCluster_loop.simps [of property b n st]
          firstGraphemeClusterInString_iter_eq)
  qed
qed

lemma firstGraphemeClusterInString_eq:
  "firstGraphemeClusterInString property str st = firstGraphemeCluster property str st"
  by (simp add: firstGraphemeClusterInString_def firstGraphemeCluster_def
      firstGraphemeClusterInString_loop_eq DecodeRuneInString_def Let_def)

lemma firstGraphemeCluster_loop_result:
  "n < length b \<Longrightarrow>
     firstGraphemeCluster_loop property b n st = (b, [], grAny)
   \<or> (\<exists>m st'. n \<le> m \<and> m < length b
         \<and> firstGraphemeCluster_loop property b n st = (take m b, drop m b, st'))"
proof (induction property b n st rule: firstGraphemeCluster_loop.induct)
  case (1 property b n st)
  show ?case
  proof (cases "firstGraphemeCluster_iter property b n st")
    case (Break res)
    then have "res = (b, [], grAny) \<or> (\<exists>st'. res = (take n b, drop n b, st'))"
      by (auto simp: firstGraphemeCluster_iter_def Let_def split: if_splits)
    with Break 1(2) show ?thesis
      by (auto simp: firstGraphemeCluster_loop.simps [of property b n st])
  next
    case (Continue v)
    then have c: "firstGraphemeCluster_iter property b n st = Continue (fst v, snd v)" by simp
    note b = firstGraphemeCluster_iter_Continue [OF c]
    from 1(1) [OF Continue] b
    have "firstGraphemeCluster_loop property b (fst v) (snd v) = (b, [], grAny)
        \<or> (\<exists>m st'. fst v \<le> m \<and> m < length b
         \<and> firstGraphemeCluster_loop property b (fst v) (snd v) = (take m b, drop m b, st'))"
      by simp
    then show ?thesis
    proof
      assume "firstGraphemeCluster_loop property b (fst v) (snd v) = (b, [], grAny)"
      with Continue show ?thesis
        by (simp add: firstGraphemeCluster_loop.simps [of property b n st])
    next
      assume "\<exists>m st'. fst v \<le> m \<and> m < length b
         \<and> firstGraphemeCluster_loop property b (fst v) (snd v) = (take m b, drop m b, st')"
      then obtain m st' where m: "fst v \<le> m" "m < length b"
        and r: "firstGraphemeCluster_loop property b (fst v) (snd v) = (take m b, drop m b, st')"
        by blast
      from m b have "n \<le> m" by simp
      with m r Continue show ?thesis
        by (auto simp: firstGraphemeCluster_loop.simps [of property b n st])
    qed
  qed
qed

lemma firstGraphemeCluster_unfold:
  "b \<noteq> [] \<Longrightarrow> \<not> length b \<le> snd (DecodeRune b) \<Longrightarrow>
   firstGraphemeCluster property b st =
     firstGraphemeCluster_loop property b (snd (DecodeRune b))
       (if st < 0 then fst (transitionGraphemeState property grAny (fst (DecodeRune b))) else st)"
  by (simp add: firstGraphemeCluster_def Let_def)

lemma firstGraphemeCluster_short:
  "b \<noteq> [] \<Longrightarrow> length b \<le> snd (DecodeRune b) \<Longrightarrow>
   firstGraphemeCluster property b st = (b, [], grAny)"
  by (simp add: firstGraphemeCluster_def Let_def)

lemma firstGraphemeCluster_result:
  assumes "b \<noteq> []"
  shows "firstGraphemeCluster property b st = (b, [], grAny)
   \<or> (\<exists>m st'. 0 < m \<and> m < length b
         \<and> firstGraphemeCluster property b st = (take m b, drop m b, st'))"
proof (cases "length b \<le> snd (DecodeRune b)")
  case True
  with assms show ?thesis by (simp add: firstGraphemeCluster_short)
next
  case False
  let ?n = "snd (DecodeRune b)"
  let ?sa = "if st < 0 then fst (transitionGraphemeState property grAny (fst (DecodeRune b))) else st"
  from False have lt: "?n < length b" by simp
  have pos: "0 < ?n" using DecodeRune_width_pos [OF assms] .
  have eq: "firstGraphemeCluster property b st = firstGraphemeCluster_loop property b ?n ?sa"
    using assms False by (rule firstGraphemeCluster_unfold)
  from firstGraphemeCluster_loop_result [OF lt, of property ?sa]
  show ?thesis
  proof
    assume "firstGraphemeCluster_loop property b ?n ?sa = (b, [], grAny)"
    with eq show ?thesis by simp
  next
    assume "\<exists>m st'. ?n \<le> m \<and> m < length b
         \<and> firstGraphemeCluster_loop property b ?n ?sa = (take m b, drop m b, st')"
    then obtain m st' where "?n \<le> m" "m < length b"
      "firstGraphemeCluster_loop property b ?n ?sa = (take m b, drop m b, st')" by blast
    with pos eq have "0 < m \<and> m < length b
         \<and> firstGraphemeCluster property b st = (take m b, drop m b, st')" by simp
    then show ?thesis by blast
  qed
qed

lemma firstGraphemeCluster_rest_empty:
  assumes "b \<noteq> []" and "firstGraphemeCluster property b st = (c, rest, st')" and "rest = []"
  shows "c = b \<and> st' = grAny"
proof -
  from firstGraphemeCluster_result [OF assms(1), of property st] show ?thesis
  proof
    assume "firstGraphemeCluster property b st = (b, [], grAny)"
    with assms(2) show ?thesis by simp
  next
    assume "\<exists>m st'. 0 < m \<and> m < length b
         \<and> firstGraphemeCluster property b st = (take m b, drop m b, st')"
    then obtain m s' where m: "m < length b"
      and "firstGraphemeCluster property b st = (take m b, drop m b, s')" by blast
    with assms(2) have "rest = drop m b" by simp
    with m assms(3) show ?thesis by simp
  qed
qed

subsection \<open>Extracting all clusters with the streaming function\<close>

text \<open>
  The loop that the documentation of \<^verbatim>\<open>firstGraphemeCluster\<close> gives and the tests
  run, started with the state \<open>st\<close>:
  \<^verbatim>\<open>for len(b) > 0 { c, b, state = firstGraphemeCluster(b, state) }\<close>.
  It returns the clusters in order and the state left at the end.
\<close>

lemma firstGraphemeCluster_rest_shorter:
  assumes "b \<noteq> []"
  shows "length (fst (snd (firstGraphemeCluster property b st))) < length b"
proof -
  from firstGraphemeCluster_result [OF assms, of property st] show ?thesis
  proof
    assume "firstGraphemeCluster property b st = (b, [], grAny)"
    with assms show ?thesis by simp
  next
    assume "\<exists>m st'. 0 < m \<and> m < length b
         \<and> firstGraphemeCluster property b st = (take m b, drop m b, st')"
    then obtain m st' where "0 < m" "m < length b"
      "firstGraphemeCluster property b st = (take m b, drop m b, st')" by blast
    then show ?thesis by simp
  qed
qed

function firstGraphemeCluster_all ::
  "(rune \<Rightarrow> prclass) \<Rightarrow> byte list \<Rightarrow> int \<Rightarrow> byte list list \<times> int" where
  "firstGraphemeCluster_all property b st =
     (if 0 < length b then
        let r = firstGraphemeCluster property b st;
            more = firstGraphemeCluster_all property (fst (snd r)) (snd (snd r))
        in (fst r # fst more, snd more)
      else ([], st))"
  by pat_completeness auto
termination
  by (relation "measure (\<lambda>(property, b, st). length b)")
     (simp_all add: firstGraphemeCluster_rest_shorter case_prod_beta)

declare firstGraphemeCluster_all.simps [simp del]

text \<open>
  The scan that both the iterator and the streaming function perform on the runes that
  follow the first rune of a cluster, started in the state reached after that first
  rune: the number of runes that join the cluster before a boundary is found or the
  runes run out, and the state the parser is in then.
\<close>

fun scan :: "(rune \<Rightarrow> prclass) \<Rightarrow> int \<Rightarrow> rune list \<Rightarrow> nat \<times> int" where
  "scan property st [] = (0, st)"
| "scan property st (r # rs) =
     (let t = transitionGraphemeState property st r in
      if snd t then (0, fst t)
      else (Suc (fst (scan property (fst t) rs)), snd (scan property (fst t) rs)))"

section \<open>Auxiliary lemmas\<close>

subsection \<open>The iterator\<close>

lemma Next_iter_Break:
  "Next_iter property g = Break g' \<Longrightarrow>
     codePoints g' = codePoints g \<and> indices g' = indices g \<and> start g' = start g
     \<and> end' g' = pos g \<and> pos g' = Suc (pos g)"
  by (auto simp: Next_iter_def Let_def split: if_splits)

lemma Next_iter_Continue':
  "Next_iter property g = Continue g' \<Longrightarrow>
     codePoints g' = codePoints g \<and> indices g' = indices g \<and> start g' = start g
     \<and> pos g' = Suc (pos g) \<and> pos g \<noteq> length (codePoints g)"
  by (auto simp: Next_iter_def Let_def split: if_splits)

lemma Next_loop_skip: "\<not> pos g \<le> length (codePoints g) \<Longrightarrow> Next_loop property g = g"
  by (simp add: Next_loop.simps [of property g])

lemma Next_loop_props:
  "codePoints (Next_loop property g) = codePoints g
   \<and> indices (Next_loop property g) = indices g
   \<and> start (Next_loop property g) = start g
   \<and> (pos g \<le> length (codePoints g) \<longrightarrow>
        pos (Next_loop property g) = Suc (end' (Next_loop property g))
        \<and> pos g \<le> end' (Next_loop property g)
        \<and> end' (Next_loop property g) \<le> length (codePoints g))"
proof (induction property g rule: Next_loop.induct)
  case (1 property g)
  show ?case
  proof (cases "pos g \<le> length (codePoints g)")
    case False
    then show ?thesis by (simp add: Next_loop_skip)
  next
    case True
    show ?thesis
    proof (cases "Next_iter property g")
      case (Break g')
      with True Next_iter_Break [OF Break] show ?thesis
        by (simp add: Next_loop.simps [of property g])
    next
      case (Continue g')
      note c = Next_iter_Continue' [OF Continue]
      from c True have le: "pos g' \<le> length (codePoints g')" by simp
      from True Continue have eq: "Next_loop property g = Next_loop property g'"
        by (simp add: Next_loop.simps [of property g])
      from 1 [OF True Continue] le c show ?thesis unfolding eq by simp
    qed
  qed
qed

lemma Next_fields:
  "codePoints (snd (Next property g)) = codePoints g
   \<and> indices (snd (Next property g)) = indices g
   \<and> start (snd (Next property g)) = end' g"
  using Next_loop_props [of property "g\<lparr>start := end' g\<rparr>"]
  by (simp add: Next_def Let_def)

lemma Next_inv:
  assumes "iter_inv g"
  shows "iter_inv (snd (Next property g))
    \<and> (fst (Next property g) \<longleftrightarrow> end' g < length (codePoints g))
    \<and> (fst (Next property g) \<longrightarrow> end' g < end' (snd (Next property g)))
    \<and> (\<not> fst (Next property g) \<longrightarrow> snd (Next property g) = g\<lparr>start := end' g\<rparr>)"
proof -
  let ?g = "g\<lparr>start := end' g\<rparr>"
  let ?h = "Next_loop property ?g"
  have h: "snd (Next property g) = ?h" "fst (Next property g) \<longleftrightarrow> start ?h \<noteq> end' ?h"
    by (simp_all add: Next_def Let_def)
  note p = Next_loop_props [of property ?g]
  show ?thesis
  proof (cases "pos g \<le> length (codePoints g)")
    case True
    with p assms show ?thesis
      unfolding h by (auto simp: iter_inv_def)
  next
    case False
    then have "?h = ?g" by (simp add: Next_loop_skip)
    with False assms show ?thesis
      unfolding h by (auto simp: iter_inv_def)
  qed
qed

text \<open>The zero-valued iterator on which the constructors call \<^verbatim>\<open>Next\<close>.\<close>

lemma Next_zero_inv:
  assumes "length idx = Suc (length cps)"
  shows "iter_inv (snd (Next property
           \<lparr>codePoints = cps, indices = idx, start = 0, end' = 0, pos = 0, state = 0\<rparr>))"
    and "start (snd (Next property
           \<lparr>codePoints = cps, indices = idx, start = 0, end' = 0, pos = 0, state = 0\<rparr>)) = 0"
    and "end' (snd (Next property
           \<lparr>codePoints = cps, indices = idx, start = 0, end' = 0, pos = 0, state = 0\<rparr>)) = 0"
proof -
  let ?g = "\<lparr>codePoints = cps, indices = idx, start = 0, end' = 0, pos = 0, state = 0\<rparr>"
  have "Next_iter property ?g = Break (Next_loop property ?g)"
    by (auto simp: Next_loop.simps [of property ?g] Next_iter_def Let_def)
  from Next_iter_Break [OF this] assms
  have "iter_inv (Next_loop property ?g) \<and> start (Next_loop property ?g) = 0
     \<and> end' (Next_loop property ?g) = 0"
    by (simp add: iter_inv_def)
  then show "iter_inv (snd (Next property ?g))" "start (snd (Next property ?g)) = 0"
    "end' (snd (Next property ?g)) = 0"
    by (simp_all add: Next_def Let_def)
qed

subsection \<open>The constructor\<close>

lemma rangeString_Nil [simp]: "rangeString p [] = []"
  by (simp add: rangeString.simps [of p "[]"])

lemma RuneCountInString_Nil [simp]: "RuneCountInString [] = 0"
  by (simp add: RuneCountInString.simps [of "[]"])

lemma rangeString_Cons:
  "s \<noteq> [] \<Longrightarrow> rangeString p s =
     (p, fst (DecodeRune s)) # rangeString (p + int (snd (DecodeRune s))) (drop (snd (DecodeRune s)) s)"
  by (simp add: rangeString.simps [of p s] DecodeRuneInString_def)

lemma RuneCountInString_Cons:
  "s \<noteq> [] \<Longrightarrow> RuneCountInString s = Suc (RuneCountInString (drop (snd (DecodeRune s)) s))"
  by (simp add: RuneCountInString.simps [of s] DecodeRuneInString_def)

lemma RuneCountInString_eq: "RuneCountInString s = length (rangeString p s)"
proof (induction s arbitrary: p rule: RuneCountInString.induct)
  case (1 s)
  show ?case
  proof (cases "s = []")
    case True
    then show ?thesis by simp
  next
    case False
    with 1 [OF False] show ?thesis
      by (simp add: RuneCountInString_Cons rangeString_Cons DecodeRuneInString_def)
  qed
qed

lemma NewGraphemes_fill_eq:
  "i + length xs \<le> length cps \<Longrightarrow> i + length xs \<le> length idx \<Longrightarrow>
   NewGraphemes_fill xs i (cps, idx) =
     (take i cps @ map snd xs @ drop (i + length xs) cps,
      take i idx @ map fst xs @ drop (i + length xs) idx)"
proof (induction xs arbitrary: i cps idx)
  case Nil
  then show ?case by simp
next
  case (Cons x xs)
  obtain p r where x: "x = (p, r)" by (cases x)
  from Cons.prems have i: "i < length cps" "i < length idx" by simp_all
  have "NewGraphemes_fill (x # xs) i (cps, idx)
      = NewGraphemes_fill xs (Suc i) (cps[i := r], idx[i := p])"
    by (simp add: x)
  also have "\<dots> = (take (Suc i) (cps[i := r]) @ map snd xs @ drop (Suc i + length xs) (cps[i := r]),
      take (Suc i) (idx[i := p]) @ map fst xs @ drop (Suc i + length xs) (idx[i := p]))"
    using Cons.prems by (intro Cons.IH) simp_all
  also have "take (Suc i) (cps[i := r]) = take i cps @ [r]"
    using i by (simp add: take_Suc_conv_app_nth)
  also have "take (Suc i) (idx[i := p]) = take i idx @ [p]"
    using i by (simp add: take_Suc_conv_app_nth)
  finally show ?case by (simp add: x)
qed

lemma NewGraphemes_fill_replicate:
  "NewGraphemes_fill xs 0 (replicate (length xs) a, replicate (length xs + 1) b)
     = (map snd xs, map fst xs @ [b])"
proof -
  have r: "replicate (length xs + 1) b = replicate (length xs) b @ [b]"
    by (simp add: replicate_append_same)
  show ?thesis
    unfolding r by (subst NewGraphemes_fill_eq) simp_all
qed

lemma NewGraphemes_eq:
  "NewGraphemes property s =
     snd (Next property
       \<lparr>codePoints = map snd (rangeString 0 s),
        indices = map fst (rangeString 0 s) @ [int (length s)],
        start = 0, end' = 0, pos = 0, state = 0\<rparr>)"
proof -
  let ?xs = "rangeString 0 s"
  have l: "RuneCountInString s = length ?xs" by (rule RuneCountInString_eq)
  show ?thesis
    unfolding NewGraphemes_def Let_def l NewGraphemes_fill_replicate
    by (simp add: list_update_append)
qed

lemma rangeString_hd: "rangeString p s \<noteq> [] \<Longrightarrow> fst (hd (rangeString p s)) = p"
  by (cases "s = []") (simp_all add: rangeString_Cons)

lemma NewGraphemes_fields:
  "codePoints (NewGraphemes property s) = map snd (rangeString 0 s)"
  "indices (NewGraphemes property s) = map fst (rangeString 0 s) @ [int (length s)]"
  "start (NewGraphemes property s) = 0"
  "end' (NewGraphemes property s) = 0"
  "iter_inv (NewGraphemes property s)"
  using Next_zero_inv [of "map fst (rangeString 0 s) @ [int (length s)]" "map snd (rangeString 0 s)" property]
  by (simp_all add: NewGraphemes_eq Next_fields)

lemma NewGraphemes_indices_0: "indices (NewGraphemes property s) ! 0 = 0"
proof (cases "rangeString 0 s = []")
  case True
  then have "s = []" by (cases "s = []") (simp_all add: rangeString_Cons)
  with True show ?thesis by (simp add: NewGraphemes_fields)
next
  case False
  with rangeString_hd [OF False] show ?thesis
    by (simp add: NewGraphemes_fields nth_append hd_conv_nth hd_map)
qed

lemma NewGraphemes_indices_last:
  "indices (NewGraphemes property s) ! length (codePoints (NewGraphemes property s)) = int (length s)"
  by (simp add: NewGraphemes_fields nth_append)

subsection \<open>Reset and the accessors\<close>

lemma Reset_eq:
  fixes g :: Graphemes
  assumes "codePoints g = cps" and "indices g = idx"
  shows "Reset property g =
     snd (Next property \<lparr>codePoints = cps, indices = idx, start = 0, end' = 0, pos = 0, state = 0\<rparr>)"
proof -
  from assms have "g\<lparr>start := 0, end' := 0, pos := 0, state := grAny\<rparr>
      = \<lparr>codePoints = cps, indices = idx, start = 0, end' = 0, pos = 0, state = 0\<rparr>"
    by (cases g) (simp add: grAny_def)
  then show ?thesis by (simp add: Reset_def)
qed

lemma Next_funpow_fields:
  "codePoints (((\<lambda>g. snd (Next property g)) ^^ k) g) = codePoints g
   \<and> indices (((\<lambda>g. snd (Next property g)) ^^ k) g) = indices g"
  by (induction k) (simp_all add: Next_fields)


lemma Reset_NewGraphemes:
  "Reset property (((\<lambda>g. snd (Next property g)) ^^ k) (NewGraphemes property s))
     = NewGraphemes property s"
  by (subst Reset_eq [OF refl refl])
     (simp add: Next_funpow_fields NewGraphemes_fields, simp add: NewGraphemes_eq)



subsection \<open>Decoding an encoded rune\<close>

lemma uint_byte: "0 \<le> k \<Longrightarrow> k < 256 \<Longrightarrow> uint (of_int k :: byte) = k"
  by (simp add: uint_word_of_int_eq take_bit_int_eq_self)

lemma DecodeRune_Cons:
  "DecodeRune (p0 # ps) =
         (let x = uint p0; n = Suc (length ps) in
          if x < 0x80 then (x, 1)
          else if x < 0xC2 \<or> 0xF5 \<le> x then (RuneError, 1)
          else
            let sz = (if x < 0xE0 then 2 else if x < 0xF0 then 3 else (4::nat));
                lo = (if x = 0xE0 then 0xA0 else if x = 0xF0 then 0x90 else (0x80::int));
                hi = (if x = 0xED then 0x9F else if x = 0xF4 then 0x8F else (0xBF::int))
            in
            if n < sz then (RuneError, 1)
            else
              let b1 = uint ((p0 # ps) ! 1) in
              if b1 < lo \<or> hi < b1 then (RuneError, 1)
              else if sz \<le> 2 then ((x mod 32) * 64 + b1 mod 64, 2)
              else
                let b2 = uint ((p0 # ps) ! 2) in
                if b2 < 0x80 \<or> 0xBF < b2 then (RuneError, 1)
                else if sz \<le> 3 then ((x mod 16) * 4096 + (b1 mod 64) * 64 + b2 mod 64, 3)
                else
                  let b3 = uint ((p0 # ps) ! 3) in
                  if b3 < 0x80 \<or> 0xBF < b3 then (RuneError, 1)
                  else ((x mod 8) * 262144 + (b1 mod 64) * 4096 + (b2 mod 64) * 64
                          + b3 mod 64, 4))"
  unfolding DecodeRune_def by (simp only: list.case length_Cons)

lemma DecodeRune_ascii:
  assumes "uint p0 < 0x80"
  shows "DecodeRune (p0 # rest) = (uint p0, 1)"
  unfolding DecodeRune_Cons Let_def using assms by (simp only: if_True)


lemma DecodeRune_two:
  assumes "uint p0 = x" "0xC2 \<le> x" "x < 0xE0" "uint p1 = b1" "0x80 \<le> b1" "b1 \<le> 0xBF"
  shows "DecodeRune (p0 # p1 # rest) = ((x mod 32) * 64 + b1 mod 64, 2)"
proof -
  have f: "\<not> x < 0x80" "\<not> (x < 0xC2 \<or> 0xF5 \<le> x)" "x \<noteq> 0xE0" "x \<noteq> 0xF0" "x \<noteq> 0xED" "x \<noteq> 0xF4"
    "\<not> (b1 < 0x80 \<or> 0xBF < b1)"
    using assms by auto
  have n: "(p0 # p1 # rest) ! 1 = p1" by simp
  show ?thesis
    unfolding DecodeRune_Cons Let_def n assms(1) assms(4)
    using f assms(3) by simp
qed


lemma DecodeRune_three:
  assumes "uint p0 = x" "0xE0 \<le> x" "x < 0xF0" "uint p1 = b1" "uint p2 = b2"
    "(if x = 0xE0 then 0xA0 else 0x80) \<le> b1" "b1 \<le> (if x = 0xED then 0x9F else 0xBF)"
    "0x80 \<le> b2" "b2 \<le> 0xBF"
  shows "DecodeRune (p0 # p1 # p2 # rest) = ((x mod 16) * 4096 + (b1 mod 64) * 64 + b2 mod 64, 3)"
proof -
  have f: "\<not> x < 0x80" "\<not> (x < 0xC2 \<or> 0xF5 \<le> x)" "\<not> x < 0xE0" "x \<noteq> 0xF0" "x \<noteq> 0xF4"
    "\<not> (b2 < 0x80 \<or> 0xBF < b2)"
    using assms by auto
  have g: "\<not> (b1 < (if x = 0xE0 then 0xA0 else 0x80) \<or> (if x = 0xED then 0x9F else 0xBF) < b1)"
    using assms(6,7) by auto
  have n: "(p0 # p1 # p2 # rest) ! 1 = p1" "(p0 # p1 # p2 # rest) ! 2 = p2" by simp_all
  show ?thesis
    unfolding DecodeRune_Cons Let_def n assms(1) assms(4) assms(5)
    using f g assms(3) by (auto split: if_splits)
qed

lemma DecodeRune_four:
  assumes "uint p0 = x" "0xF0 \<le> x" "x < 0xF5" "uint p1 = b1" "uint p2 = b2" "uint p3 = b3"
    "(if x = 0xF0 then 0x90 else 0x80) \<le> b1" "b1 \<le> (if x = 0xF4 then 0x8F else 0xBF)"
    "0x80 \<le> b2" "b2 \<le> 0xBF" "0x80 \<le> b3" "b3 \<le> 0xBF"
  shows "DecodeRune (p0 # p1 # p2 # p3 # rest)
           = ((x mod 8) * 262144 + (b1 mod 64) * 4096 + (b2 mod 64) * 64 + b3 mod 64, 4)"
proof -
  have f: "\<not> x < 0x80" "\<not> (x < 0xC2 \<or> 0xF5 \<le> x)" "\<not> x < 0xE0" "\<not> x < 0xF0" "x \<noteq> 0xE0" "x \<noteq> 0xED"
    "\<not> (b2 < 0x80 \<or> 0xBF < b2)" "\<not> (b3 < 0x80 \<or> 0xBF < b3)"
    using assms by auto
  have g: "\<not> (b1 < (if x = 0xF0 then 0x90 else 0x80) \<or> (if x = 0xF4 then 0x8F else 0xBF) < b1)"
    using assms(7,8) by auto
  have n: "(p0 # p1 # p2 # p3 # rest) ! 1 = p1" "(p0 # p1 # p2 # p3 # rest) ! 2 = p2"
    "(p0 # p1 # p2 # p3 # rest) ! 3 = p3" by simp_all
  show ?thesis
    unfolding DecodeRune_Cons Let_def n assms(1) assms(4) assms(5) assms(6)
    using f g by (auto split: if_splits)
qed


lemma mod_shift: "(0::int) \<le> k \<Longrightarrow> k < m \<Longrightarrow> (m * j + k) mod m = k"
  by simp

lemma div_4096: "(r::int) div 4096 = r div 64 div 64"
proof -
  have "r div (64 * 64) = r div 64 div 64" by (rule zdiv_zmult2_eq) simp
  then show ?thesis by simp
qed

lemma div_262144: "(r::int) div 262144 = r div 64 div 64 div 64"
proof -
  have "r div (4096 * 64) = r div 4096 div 64" by (rule zdiv_zmult2_eq) simp
  then show ?thesis by (simp add: div_4096)
qed

lemma DecodeRune_EncodeRune_1:
  assumes "0 \<le> r" "r < 0x80"
  shows "EncodeRune r = [of_int r]" "DecodeRune (of_int r # rest) = (r, 1)"
proof -
  show "EncodeRune r = [of_int r]" using assms by (simp add: EncodeRune_def)
  have "uint (of_int r :: byte) = r" using assms by (intro uint_byte) simp_all
  with assms DecodeRune_ascii [of "of_int r" rest] show "DecodeRune (of_int r # rest) = (r, 1)"
    by simp
qed

lemma DecodeRune_EncodeRune_2:
  assumes "0x80 \<le> r" "r < 0x800"
  shows "EncodeRune r = [of_int (0xC0 + r div 64), of_int (0x80 + r mod 64)]"
    "DecodeRune (of_int (0xC0 + r div 64) # of_int (0x80 + r mod 64) # rest) = (r, 2)"
proof -
  define c0 where "c0 = r mod 64"
  define q1 where "q1 = r div 64"
  have e: "r = q1 * 64 + c0" "0 \<le> c0" "c0 < 64" by (simp_all add: c0_def q1_def)
  from e assms have q: "2 \<le> q1" "q1 < 32" by linarith+
  show "EncodeRune r = [of_int (0xC0 + r div 64), of_int (0x80 + r mod 64)]"
    using assms by (simp add: EncodeRune_def)
  have x: "uint (of_int (0xC0 + q1) :: byte) = 0xC0 + q1" using q by (intro uint_byte) simp_all
  have b: "uint (of_int (0x80 + c0) :: byte) = 0x80 + c0" using e by (intro uint_byte) simp_all
  have m1: "(0xC0 + q1) mod 32 = q1" using mod_shift [of q1 32 6] q by simp
  have m2: "(0x80 + c0) mod 64 = c0" using mod_shift [of c0 64 2] e by simp
  have "DecodeRune (of_int (0xC0 + q1) # of_int (0x80 + c0) # rest)
      = (((0xC0 + q1) mod 32) * 64 + (0x80 + c0) mod 64, 2)"
    using q e by (intro DecodeRune_two [OF x _ _ b]) auto
  moreover have "q1 * 64 + c0 = r" using e by linarith
  ultimately have "DecodeRune (of_int (0xC0 + q1) # of_int (0x80 + c0) # rest) = (r, 2)"
    unfolding m1 m2 by (simp only:)
  then show "DecodeRune (of_int (0xC0 + r div 64) # of_int (0x80 + r mod 64) # rest) = (r, 2)"
    unfolding q1_def c0_def .
qed

lemma DecodeRune_EncodeRune_3:
  assumes "0x800 \<le> r" "r < 0x10000" "\<not> (0xD800 \<le> r \<and> r \<le> 0xDFFF)"
  shows "EncodeRune r = [of_int (0xE0 + r div 4096), of_int (0x80 + (r div 64) mod 64),
            of_int (0x80 + r mod 64)]"
    "DecodeRune (of_int (0xE0 + r div 4096) # of_int (0x80 + (r div 64) mod 64)
            # of_int (0x80 + r mod 64) # rest) = (r, 3)"
proof -
  define c0 where "c0 = r mod 64"
  define q1 where "q1 = r div 64"
  define c1 where "c1 = q1 mod 64"
  define q2 where "q2 = q1 div 64"
  have e: "r = q1 * 64 + c0" "0 \<le> c0" "c0 < 64" "q1 = q2 * 64 + c1" "0 \<le> c1" "c1 < 64"
    by (simp_all add: c0_def q1_def c1_def q2_def)
  have d: "r div 4096 = q2" by (simp add: div_4096 q2_def q1_def)
  from e assms have q: "0 \<le> q2" "q2 < 16" by linarith+
  from e assms have s0: "q2 = 0 \<longrightarrow> 32 \<le> c1" by linarith
  from e assms have sd: "q2 = 13 \<longrightarrow> c1 < 32" by linarith
  show "EncodeRune r = [of_int (0xE0 + r div 4096), of_int (0x80 + (r div 64) mod 64),
            of_int (0x80 + r mod 64)]"
    using assms by (auto simp: EncodeRune_def)
  have x: "uint (of_int (0xE0 + q2) :: byte) = 0xE0 + q2" using q by (intro uint_byte) simp_all
  have b1: "uint (of_int (0x80 + c1) :: byte) = 0x80 + c1" using e by (intro uint_byte) simp_all
  have b2: "uint (of_int (0x80 + c0) :: byte) = 0x80 + c0" using e by (intro uint_byte) simp_all
  have m0: "(0xE0 + q2) mod 16 = q2" using mod_shift [of q2 16 14] q by simp
  have m1: "(0x80 + c1) mod 64 = c1" using mod_shift [of c1 64 2] e by simp
  have m2: "(0x80 + c0) mod 64 = c0" using mod_shift [of c0 64 2] e by simp
  have "DecodeRune (of_int (0xE0 + q2) # of_int (0x80 + c1) # of_int (0x80 + c0) # rest)
      = (((0xE0 + q2) mod 16) * 4096 + ((0x80 + c1) mod 64) * 64 + (0x80 + c0) mod 64, 3)"
    using q e s0 sd by (intro DecodeRune_three [OF x _ _ b1 b2]) auto
  moreover have "q2 * 4096 + c1 * 64 + c0 = r" using e by linarith
  ultimately have "DecodeRune (of_int (0xE0 + q2) # of_int (0x80 + c1) # of_int (0x80 + c0) # rest)
      = (r, 3)"
    unfolding m0 m1 m2 by (simp only:)
  then show "DecodeRune (of_int (0xE0 + r div 4096) # of_int (0x80 + (r div 64) mod 64)
            # of_int (0x80 + r mod 64) # rest) = (r, 3)"
    unfolding d unfolding c1_def c0_def q1_def .
qed

lemma DecodeRune_EncodeRune_4:
  assumes "0x10000 \<le> r" "r \<le> 0x10FFFF"
  shows "EncodeRune r = [of_int (0xF0 + r div 262144), of_int (0x80 + (r div 4096) mod 64),
            of_int (0x80 + (r div 64) mod 64), of_int (0x80 + r mod 64)]"
    "DecodeRune (of_int (0xF0 + r div 262144) # of_int (0x80 + (r div 4096) mod 64)
            # of_int (0x80 + (r div 64) mod 64) # of_int (0x80 + r mod 64) # rest) = (r, 4)"
proof -
  define c0 where "c0 = r mod 64"
  define q1 where "q1 = r div 64"
  define c1 where "c1 = q1 mod 64"
  define q2 where "q2 = q1 div 64"
  define c2 where "c2 = q2 mod 64"
  define q3 where "q3 = q2 div 64"
  have e: "r = q1 * 64 + c0" "0 \<le> c0" "c0 < 64" "q1 = q2 * 64 + c1" "0 \<le> c1" "c1 < 64"
    "q2 = q3 * 64 + c2" "0 \<le> c2" "c2 < 64"
    by (simp_all add: c0_def q1_def c1_def q2_def c2_def q3_def)
  have d: "r div 4096 = q2" by (simp add: div_4096 q2_def q1_def)
  have d3: "r div 262144 = q3" by (simp add: div_262144 q3_def q2_def q1_def)
  from e assms have q: "0 \<le> q3" "q3 < 5" by linarith+
  from e assms have s0: "q3 = 0 \<longrightarrow> 16 \<le> c2" by linarith
  from e assms have sd: "q3 = 4 \<longrightarrow> c2 < 16" by linarith
  show "EncodeRune r = [of_int (0xF0 + r div 262144), of_int (0x80 + (r div 4096) mod 64),
            of_int (0x80 + (r div 64) mod 64), of_int (0x80 + r mod 64)]"
    using assms by (simp add: EncodeRune_def)
  have x: "uint (of_int (0xF0 + q3) :: byte) = 0xF0 + q3" using q by (intro uint_byte) simp_all
  have b1: "uint (of_int (0x80 + c2) :: byte) = 0x80 + c2" using e by (intro uint_byte) simp_all
  have b2: "uint (of_int (0x80 + c1) :: byte) = 0x80 + c1" using e by (intro uint_byte) simp_all
  have b3: "uint (of_int (0x80 + c0) :: byte) = 0x80 + c0" using e by (intro uint_byte) simp_all
  have m0: "(0xF0 + q3) mod 8 = q3" using mod_shift [of q3 8 30] q by simp
  have m1: "(0x80 + c2) mod 64 = c2" using mod_shift [of c2 64 2] e by simp
  have m2: "(0x80 + c1) mod 64 = c1" using mod_shift [of c1 64 2] e by simp
  have m3: "(0x80 + c0) mod 64 = c0" using mod_shift [of c0 64 2] e by simp
  have "DecodeRune (of_int (0xF0 + q3) # of_int (0x80 + c2) # of_int (0x80 + c1)
          # of_int (0x80 + c0) # rest)
      = (((0xF0 + q3) mod 8) * 262144 + ((0x80 + c2) mod 64) * 4096
           + ((0x80 + c1) mod 64) * 64 + (0x80 + c0) mod 64, 4)"
    using q e s0 sd by (intro DecodeRune_four [OF x _ _ b1 b2 b3]) auto
  moreover have "q3 * 262144 + c2 * 4096 + c1 * 64 + c0 = r" using e by linarith
  ultimately have "DecodeRune (of_int (0xF0 + q3) # of_int (0x80 + c2) # of_int (0x80 + c1)
          # of_int (0x80 + c0) # rest) = (r, 4)"
    unfolding m0 m1 m2 m3 by (simp only:)
  then show "DecodeRune (of_int (0xF0 + r div 262144) # of_int (0x80 + (r div 4096) mod 64)
            # of_int (0x80 + (r div 64) mod 64) # of_int (0x80 + r mod 64) # rest) = (r, 4)"
    unfolding d3 c2_def unfolding d unfolding c1_def c0_def q1_def .
qed

subsection \<open>Decoding an encoded string\<close>

lemma DecodeRune_EncodeRune:
  assumes "ValidRune r"
  shows "DecodeRune (EncodeRune r @ rest) = (r, length (EncodeRune r))
       \<and> int (length (EncodeRune r)) = RuneLen r \<and> EncodeRune r \<noteq> []"
proof -
  consider "0 \<le> r \<and> r < 0x80" | "0x80 \<le> r \<and> r < 0x800"
    | "0x800 \<le> r \<and> r < 0x10000 \<and> \<not> (0xD800 \<le> r \<and> r \<le> 0xDFFF)"
    | "0x10000 \<le> r \<and> r \<le> 0x10FFFF"
    using assms unfolding ValidRune_def by linarith
  then show ?thesis
  proof cases
    case 1
    then have e: "EncodeRune r = [of_int r]"
      by (intro DecodeRune_EncodeRune_1(1)) simp_all
    from 1 have "DecodeRune (of_int r # rest) = (r, 1)"
      by (intro DecodeRune_EncodeRune_1(2)) simp_all
    then have d: "DecodeRune ([of_int r] @ rest) = (r, 1)" by simp
    from 1 have "RuneLen r = 1" by (simp add: RuneLen_def)
    with d show ?thesis unfolding e by simp
  next
    case 2
    then have e: "EncodeRune r = [of_int (0xC0 + r div 64), of_int (0x80 + r mod 64)]"
      by (intro DecodeRune_EncodeRune_2(1)) simp_all
    from 2 have "DecodeRune (of_int (0xC0 + r div 64) # of_int (0x80 + r mod 64) # rest) = (r, 2)"
      by (intro DecodeRune_EncodeRune_2(2)) simp_all
    then have d: "DecodeRune ([of_int (0xC0 + r div 64), of_int (0x80 + r mod 64)] @ rest) = (r, 2)"
      by simp
    from 2 have "RuneLen r = 2" by (simp add: RuneLen_def)
    with d show ?thesis unfolding e by simp
  next
    case 3
    then have e: "EncodeRune r = [of_int (0xE0 + r div 4096), of_int (0x80 + (r div 64) mod 64),
            of_int (0x80 + r mod 64)]"
      by (intro DecodeRune_EncodeRune_3(1)) simp_all
    from 3 have "DecodeRune (of_int (0xE0 + r div 4096) # of_int (0x80 + (r div 64) mod 64)
            # of_int (0x80 + r mod 64) # rest) = (r, 3)"
      by (intro DecodeRune_EncodeRune_3(2)) simp_all
    then have d: "DecodeRune ([of_int (0xE0 + r div 4096), of_int (0x80 + (r div 64) mod 64),
            of_int (0x80 + r mod 64)] @ rest) = (r, 3)"
      by simp
    from 3 have "RuneLen r = 3" by (auto simp: RuneLen_def)
    with d show ?thesis unfolding e by simp
  next
    case 4
    then have e: "EncodeRune r = [of_int (0xF0 + r div 262144),
            of_int (0x80 + (r div 4096) mod 64),
            of_int (0x80 + (r div 64) mod 64), of_int (0x80 + r mod 64)]"
      by (intro DecodeRune_EncodeRune_4(1)) simp_all
    from 4 have "DecodeRune (of_int (0xF0 + r div 262144) # of_int (0x80 + (r div 4096) mod 64)
            # of_int (0x80 + (r div 64) mod 64) # of_int (0x80 + r mod 64) # rest) = (r, 4)"
      by (intro DecodeRune_EncodeRune_4(2)) simp_all
    then have d: "DecodeRune ([of_int (0xF0 + r div 262144), of_int (0x80 + (r div 4096) mod 64),
            of_int (0x80 + (r div 64) mod 64), of_int (0x80 + r mod 64)] @ rest) = (r, 4)"
      by simp
    from 4 have "RuneLen r = 4" by (simp add: RuneLen_def)
    with d show ?thesis unfolding e by simp
  qed
qed

lemma rangeString_EncodeRune:
  assumes "ValidRune r"
  shows "rangeString p (EncodeRune r @ rest) = (p, r) # rangeString (p + RuneLen r) rest"
proof -
  note d = DecodeRune_EncodeRune [OF assms, of rest]
  from d have "EncodeRune r @ rest \<noteq> []" by simp
  from rangeString_Cons [OF this, of p] d show ?thesis by simp
qed

lemma rangeString_string_of_runes:
  "list_all ValidRune rs \<Longrightarrow>
     rangeString p (string_of_runes rs) = zip (rune_offsets p rs) rs"
proof (induction rs arbitrary: p)
  case Nil
  then show ?case by (simp add: string_of_runes_def)
next
  case (Cons r rs)
  from Cons.prems have v: "ValidRune r" "list_all ValidRune rs" by simp_all
  have "string_of_runes (r # rs) = EncodeRune r @ string_of_runes rs"
    by (simp add: string_of_runes_def)
  with rangeString_EncodeRune [OF v(1), of p "string_of_runes rs"] Cons.IH [OF v(2)]
  show ?case by simp
qed

lemma length_rune_offsets [simp]: "length (rune_offsets p rs) = length rs"
  by (induction rs arbitrary: p) simp_all

lemma length_string_of_runes:
  "list_all ValidRune rs \<Longrightarrow> int (length (string_of_runes rs)) = sum_list (map RuneLen rs)"
proof (induction rs)
  case Nil
  then show ?case by (simp add: string_of_runes_def)
next
  case (Cons r rs)
  then have v: "ValidRune r" "list_all ValidRune rs" by simp_all
  from DecodeRune_EncodeRune [OF v(1), of "[]"] Cons.IH [OF v(2)]
  show ?case by (simp add: string_of_runes_def)
qed

lemma NewGraphemesFromRunes_fill_eq:
  "i + length rs \<le> length idx \<Longrightarrow>
   NewGraphemesFromRunes_fill rs i p idx =
     (take i idx @ rune_offsets p rs @ drop (i + length rs) idx, p + sum_list (map RuneLen rs))"
proof (induction rs arbitrary: i p idx)
  case Nil
  then show ?case by simp
next
  case (Cons r rs)
  from Cons.prems have i: "i < length idx" by simp
  have "NewGraphemesFromRunes_fill (r # rs) i p idx
      = NewGraphemesFromRunes_fill rs (Suc i) (p + RuneLen r) (idx[i := p])"
    by simp
  also have "\<dots> = (take (Suc i) (idx[i := p]) @ rune_offsets (p + RuneLen r) rs
       @ drop (Suc i + length rs) (idx[i := p]), p + RuneLen r + sum_list (map RuneLen rs))"
    using Cons.prems by (intro Cons.IH) simp_all
  also have "take (Suc i) (idx[i := p]) = take i idx @ [p]"
    using i by (simp add: take_Suc_conv_app_nth)
  finally show ?case by simp
qed

lemma NewGraphemesFromRunes_eq:
  "NewGraphemesFromRunes property rs =
     snd (Next property
       \<lparr>codePoints = rs,
        indices = rune_offsets 0 rs @ [sum_list (map RuneLen rs)],
        start = 0, end' = 0, pos = 0, state = 0\<rparr>)"
proof -
  have r: "replicate (length rs + 1) (0::int) = replicate (length rs) 0 @ [0]"
    by (simp add: replicate_append_same)
  have "NewGraphemesFromRunes_fill rs 0 0 (replicate (length rs + 1) 0)
      = (rune_offsets 0 rs @ [0], sum_list (map RuneLen rs))"
    unfolding r by (subst NewGraphemesFromRunes_fill_eq) simp_all
  then show ?thesis
    unfolding NewGraphemesFromRunes_def Let_def
    by (simp add: list_update_append)
qed

lemma NewGraphemes_string_of_runes:
  assumes "list_all ValidRune rs"
  shows "NewGraphemes property (string_of_runes rs) = NewGraphemesFromRunes property rs"
  unfolding NewGraphemes_eq NewGraphemesFromRunes_eq
  by (simp add: rangeString_string_of_runes [OF assms] length_string_of_runes [OF assms])

subsection \<open>Draining the iterator\<close>

lemma drain_Cons:
  "fst (Next property g) \<Longrightarrow>
     drain property g = snd (Next property g) # drain property (snd (Next property g))"
  by (simp add: drain.simps [of property g])

lemma drain_Nil: "\<not> fst (Next property g) \<Longrightarrow> drain property g = []"
  by (simp add: drain.simps [of property g])

lemma drain_tiles:
  "iter_inv g \<Longrightarrow>
     tiles (end' g) (map (\<lambda>h. (start h, end' h)) (drain property g)) (length (codePoints g))"
proof (induction property g rule: drain.induct)
  case (1 property g)
  note inv = Next_inv [OF 1(2), of property]
  show ?case
  proof (cases "fst (Next property g)")
    case True
    let ?h = "snd (Next property g)"
    from inv True have h: "iter_inv ?h" "end' g < end' ?h" by simp_all
    have f: "start ?h = end' g" "codePoints ?h = codePoints g" by (simp_all add: Next_fields)
    from 1(1) [OF True h(1)] f h show ?thesis by (simp add: drain_Cons [OF True])
  next
    case False
    with inv 1(2) have "end' g = length (codePoints g)" by (simp add: iter_inv_def)
    with False show ?thesis by (simp add: drain_Nil)
  qed
qed

lemma drain_fields:
  "h \<in> set (drain property g) \<Longrightarrow> codePoints h = codePoints g \<and> indices h = indices g"
proof (induction property g rule: drain.induct)
  case (1 property g)
  show ?case
  proof (cases "fst (Next property g)")
    case True
    with 1(2) have "h = snd (Next property g) \<or> h \<in> set (drain property (snd (Next property g)))"
      by (simp add: drain_Cons)
    with 1(1) [OF True] show ?thesis by (auto simp: Next_fields)
  next
    case False
    with 1(2) show ?thesis by (simp add: drain_Nil)
  qed
qed

lemma tiles_le: "tiles a rs b \<Longrightarrow> a \<le> b"
  by (induction a rs b rule: tiles.induct) auto

lemma tiles_concat:
  "tiles a rs b \<Longrightarrow>
     concat (map (\<lambda>(x, y). take (y - x) (drop x xs)) rs) = take (b - a) (drop a xs)"
proof (induction a rs b rule: tiles.induct)
  case (1 a b)
  then show ?case by simp
next
  case (2 a x y rs b)
  then have t: "tiles y rs b" and xy: "x = a" "a < y" by simp_all
  from tiles_le [OF t] have yb: "y \<le> b" .
  have "take (y - a) (drop a xs) @ take (b - y) (drop y xs) = take (b - a) (drop a xs)"
  proof -
    have "take (b - a) (drop a xs) = take ((y - a) + (b - y)) (drop a xs)"
      using xy yb by simp
    also have "\<dots> = take (y - a) (drop a xs) @ take (b - y) (drop (y - a) (drop a xs))"
      by (rule take_add)
    also have "drop (y - a) (drop a xs) = drop y xs" using xy by simp
    finally show ?thesis by simp
  qed
  with 2(1) [OF t] xy show ?case by simp
qed

lemma tiles_map_cong:
  "tiles a rs b \<Longrightarrow> b \<le> n \<Longrightarrow> \<forall>(x, y) \<in> set rs. x < y \<and> y \<le> n"
proof (induction a rs b rule: tiles.induct)
  case (1 a b)
  then show ?case by simp
next
  case (2 a x y rs b)
  from 2(2) have t: "tiles y rs b" and xy: "x = a" "a < y" by auto
  from tiles_le [OF t] 2(3) have "y \<le> n" by simp
  with 2(1) [OF t 2(3)] xy show ?case by auto
qed

lemma Runes_in_range:
  "start h < end' h \<Longrightarrow> end' h \<le> length (codePoints h) \<Longrightarrow>
     Runes h = Inr (take (end' h - start h) (drop (start h) (codePoints h)))
   \<and> Str h = Inr (string_of_runes (take (end' h - start h) (drop (start h) (codePoints h))))
   \<and> Bytes h = Inr (string_of_runes (take (end' h - start h) (drop (start h) (codePoints h))))"
  by (simp add: Runes_def Str_def Bytes_def slice_def)

lemma string_of_runes_concat:
  "concat (map string_of_runes xss) = string_of_runes (concat xss)"
  by (induction xss) (simp_all add: string_of_runes_def)

lemma drain_accessors:
  assumes "iter_inv g"
  shows "map Runes (drain property g)
           = map (\<lambda>h. Inr (take (end' h - start h) (drop (start h) (codePoints g)))) (drain property g)"
    and "map Str (drain property g)
           = map (\<lambda>h. Inr (string_of_runes (take (end' h - start h) (drop (start h) (codePoints g)))))
               (drain property g)"
    and "map Bytes (drain property g) = map Str (drain property g)"
proof -
  let ?rs = "map (\<lambda>h. (start h, end' h)) (drain property g)"
  from tiles_map_cong [OF drain_tiles [OF assms, of property] le_refl]
  have r: "\<forall>h \<in> set (drain property g). start h < end' h \<and> end' h \<le> length (codePoints g)"
    by auto
  have "\<forall>h \<in> set (drain property g).
      Runes h = Inr (take (end' h - start h) (drop (start h) (codePoints g)))
   \<and> Str h = Inr (string_of_runes (take (end' h - start h) (drop (start h) (codePoints g))))
   \<and> Bytes h = Inr (string_of_runes (take (end' h - start h) (drop (start h) (codePoints g))))"
  proof
    fix h assume h: "h \<in> set (drain property g)"
    from drain_fields [OF h] have c: "codePoints h = codePoints g" by simp
    from r h have "start h < end' h" "end' h \<le> length (codePoints h)" by (simp_all add: c)
    from Runes_in_range [OF this] show "Runes h = Inr (take (end' h - start h) (drop (start h) (codePoints g)))
   \<and> Str h = Inr (string_of_runes (take (end' h - start h) (drop (start h) (codePoints g))))
   \<and> Bytes h = Inr (string_of_runes (take (end' h - start h) (drop (start h) (codePoints g))))"
      by (simp add: c)
  qed
  then show "map Runes (drain property g)
           = map (\<lambda>h. Inr (take (end' h - start h) (drop (start h) (codePoints g)))) (drain property g)"
    and "map Str (drain property g)
           = map (\<lambda>h. Inr (string_of_runes (take (end' h - start h) (drop (start h) (codePoints g)))))
               (drain property g)"
    and "map Bytes (drain property g) = map Str (drain property g)"
    by simp_all
qed

lemma drain_concat_Runes:
  assumes "iter_inv g"
  shows "concat (map (\<lambda>h. take (end' h - start h) (drop (start h) (codePoints g))) (drain property g))
           = drop (end' g) (codePoints g)"
proof -
  let ?rs = "map (\<lambda>h. (start h, end' h)) (drain property g)"
  from tiles_concat [OF drain_tiles [OF assms, of property], of "codePoints g"]
  have "concat (map (\<lambda>(x, y). take (y - x) (drop x (codePoints g))) ?rs) = drop (end' g) (codePoints g)"
    by simp
  then show ?thesis by (simp add: comp_def)
qed

subsection \<open>Byte offsets\<close>

lemma rangeString_offsets:
  "(q, r) \<in> set (rangeString p s) \<Longrightarrow> p \<le> q \<and> q < p + int (length s)"
proof (induction p s rule: rangeString.induct)
  case (1 p s)
  show ?case
  proof (cases "s = []")
    case True
    with 1(2) show ?thesis by simp
  next
    case False
    let ?w = "snd (DecodeRune s)"
    have w: "0 < ?w" "?w \<le> length s"
      using DecodeRune_width_pos [OF False] DecodeRune_width_le [of s] by simp_all
    from 1(2) rangeString_Cons [OF False, of p]
    have "q = p \<or> (q, r) \<in> set (rangeString (p + int ?w) (drop ?w s))" by auto
    then show ?thesis
    proof
      assume "q = p"
      with False show ?thesis by (cases s) simp_all
    next
      assume "(q, r) \<in> set (rangeString (p + int ?w) (drop ?w s))"
      from 1(1) [OF False, unfolded DecodeRuneInString_def, OF this] w show ?thesis by simp
    qed
  qed
qed

lemma rangeString_sorted: "sorted_wrt (<) (map fst (rangeString p s))"
proof (induction p s rule: rangeString.induct)
  case (1 p s)
  show ?case
  proof (cases "s = []")
    case True
    then show ?thesis by simp
  next
    case False
    let ?w = "snd (DecodeRune s)"
    have w: "0 < ?w" using DecodeRune_width_pos [OF False] .
    have "\<forall>x \<in> set (rangeString (p + int ?w) (drop ?w s)). p < fst x"
    proof
      fix x assume "x \<in> set (rangeString (p + int ?w) (drop ?w s))"
      then have "(fst x, snd x) \<in> set (rangeString (p + int ?w) (drop ?w s))" by simp
      from rangeString_offsets [OF this] w show "p < fst x" by simp
    qed
    with 1 [OF False, unfolded DecodeRuneInString_def] show ?thesis
      by (simp add: rangeString_Cons [OF False, of p])
  qed
qed

lemma indices_sorted:
  "sorted_wrt (<) (map fst (rangeString p s) @ [p + int (length s)])"
proof -
  have "\<forall>x \<in> set (rangeString p s). fst x < p + int (length s)"
  proof
    fix x assume "x \<in> set (rangeString p s)"
    then have "(fst x, snd x) \<in> set (rangeString p s)" by simp
    from rangeString_offsets [OF this] show "fst x < p + int (length s)" by simp
  qed
  with rangeString_sorted [of p s] show ?thesis
    by (simp add: sorted_wrt_append)
qed

lemma tiles_nth:
  "tiles a rs b \<Longrightarrow> b < length idx \<Longrightarrow> sorted_wrt (<) idx \<Longrightarrow>
     tiles (idx ! a) (map (\<lambda>(x, y). (idx ! x, idx ! y)) rs) (idx ! b)"
proof (induction a rs b rule: tiles.induct)
  case (1 a b)
  then show ?case by simp
next
  case (2 a x y rs b)
  from 2(2) have t: "tiles y rs b" and xy: "x = a" "a < y" by auto
  from tiles_le [OF t] 2(3) have "y < length idx" by simp
  with xy 2(4) have "idx ! a < idx ! y" by (simp add: sorted_wrt_nth_less)
  with 2(1) [OF t 2(3) 2(4)] xy show ?case by simp
qed

lemma drain_Positions:
  assumes "iter_inv g"
  shows "map Positions (drain property g)
           = map (\<lambda>h. Inr (indices g ! start h, indices g ! end' h)) (drain property g)"
proof -
  from tiles_map_cong [OF drain_tiles [OF assms, of property] le_refl]
  have r: "\<forall>h \<in> set (drain property g). start h < end' h \<and> end' h \<le> length (codePoints g)"
    by auto
  have "\<forall>h \<in> set (drain property g). Positions h = Inr (indices g ! start h, indices g ! end' h)"
  proof
    fix h assume h: "h \<in> set (drain property g)"
    from drain_fields [OF h] have c: "indices h = indices g" by simp
    from r h assms have "start h < length (indices g)" "end' h < length (indices g)"
      by (auto simp: iter_inv_def)
    then show "Positions h = Inr (indices g ! start h, indices g ! end' h)"
      by (simp add: Positions_def c)
  qed
  then show ?thesis by simp
qed

lemma drain_Str_concat:
  assumes "iter_inv g"
  shows "list_all (\<lambda>h. \<not> isl (Str h)) (drain property g)"
    and "concat (map (\<lambda>h. projr (Str h)) (drain property g))
           = string_of_runes (drop (end' g) (codePoints g))"
proof -
  let ?f = "\<lambda>h. take (end' h - start h) (drop (start h) (codePoints g))"
  from drain_accessors(2) [OF assms, of property]
  have e: "\<forall>h \<in> set (drain property g). Str h = Inr (string_of_runes (?f h))"
    by (simp add: map_eq_conv)
  then show "list_all (\<lambda>h. \<not> isl (Str h)) (drain property g)"
    by (simp add: list_all_iff)
  from e have "map (\<lambda>h. projr (Str h)) (drain property g)
      = map string_of_runes (map ?f (drain property g))"
    by simp
  then show "concat (map (\<lambda>h. projr (Str h)) (drain property g))
           = string_of_runes (drop (end' g) (codePoints g))"
    by (simp only: string_of_runes_concat drain_concat_Runes [OF assms])
qed

lemma drain_Positions_tiles:
  assumes "iter_inv g" and "sorted_wrt (<) (indices g)"
  shows "list_all (\<lambda>h. \<not> isl (Positions h)) (drain property g)"
    and "tiles (indices g ! end' g) (map (\<lambda>h. projr (Positions h)) (drain property g))
           (indices g ! length (codePoints g))"
proof -
  from drain_Positions [OF assms(1), of property]
  have e: "\<forall>h \<in> set (drain property g). Positions h = Inr (indices g ! start h, indices g ! end' h)"
    by (simp add: map_eq_conv)
  then show "list_all (\<lambda>h. \<not> isl (Positions h)) (drain property g)"
    by (simp add: list_all_iff)
  from e have m: "map (\<lambda>h. projr (Positions h)) (drain property g)
      = map (\<lambda>(x, y). (indices g ! x, indices g ! y)) (map (\<lambda>h. (start h, end' h)) (drain property g))"
    by simp
  from assms(1) have "length (codePoints g) < length (indices g)" by (simp add: iter_inv_def)
  from tiles_nth [OF drain_tiles [OF assms(1), of property] this assms(2)]
  show "tiles (indices g ! end' g) (map (\<lambda>h. projr (Positions h)) (drain property g))
           (indices g ! length (codePoints g))"
    unfolding m .
qed

lemma decode_string_of_runes:
  "list_all ValidRune rs \<Longrightarrow> map snd (rangeString p (string_of_runes rs)) = rs"
  by (simp add: rangeString_string_of_runes)

subsection \<open>Regional indicators\<close>

lemma transition_RI:
  assumes "property r = prRegionalIndicator"
  shows "transitionGraphemeState property 0 r = (9, True)"
    and "transitionGraphemeState property 9 r = (10, False)"
    and "transitionGraphemeState property 10 r = (9, True)"
  using assms by (simp_all add: transitionGraphemeState_def grTransitions_def gr_defs)

lemma RI3:
  assumes "property r1 = prRegionalIndicator" "property r2 = prRegionalIndicator"
    "property r3 = prRegionalIndicator"
  shows "map Runes (drain property (snd (Next property
      \<lparr>codePoints = [r1, r2, r3], indices = idx, start = 0, end' = 0, pos = 0, state = 0\<rparr>)))
      = [Inr [r1, r2], Inr [r3] ]"
  by (simp add: drain.simps Next_def Next_loop.simps Next_iter_def Let_def
      transition_RI [of property r1, OF assms(1)] transition_RI [of property r2, OF assms(2)] transition_RI [of property r3, OF assms(3)]
      Runes_def slice_def)

lemma RI2:
  assumes "property r1 = prRegionalIndicator" "property r2 = prRegionalIndicator"
  shows "map Runes (drain property (snd (Next property
      \<lparr>codePoints = [r1, r2], indices = idx, start = 0, end' = 0, pos = 0, state = 0\<rparr>)))
      = [Inr [r1, r2] ]"
  by (simp add: drain.simps Next_def Next_loop.simps Next_iter_def Let_def
      transition_RI [of property r1, OF assms(1)] transition_RI [of property r2, OF assms(2)]
      Runes_def slice_def)

subsection \<open>Step budgets\<close>

lemma Next_iter_pos:
  "Next_iter property g = Break g' \<or> Next_iter property g = Continue g' \<Longrightarrow>
     pos g' = pos g + 1 \<and> codePoints g' = codePoints g"
  by (auto simp: Next_iter_def Let_def split: if_splits)

lemma Next_loop_unfold:
  "pos g \<le> length (codePoints g) \<Longrightarrow>
     Next_loop property g =
       (case Next_iter property g of Break g' \<Rightarrow> g' | Continue g' \<Rightarrow> Next_loop property g')"
  by (simp add: Next_loop.simps [of property g])

lemma Next_loop_fuel_eq:
  "length (codePoints g) + 1 - pos g \<le> fuel \<Longrightarrow>
     Next_loop_fuel fuel property g
       = Some (Next_loop property g, fuel - (pos (Next_loop property g) - pos g))"
proof (induction fuel arbitrary: g)
  case 0
  then have "\<not> pos g \<le> length (codePoints g)" by simp
  then show ?case by (simp add: Next_loop_skip)
next
  case (Suc fuel)
  show ?case
  proof (cases "pos g \<le> length (codePoints g)")
    case False
    then show ?thesis by (simp add: Next_loop_skip)
  next
    case True
    show ?thesis
    proof (cases "Next_iter property g")
      case (Break g')
      with Next_iter_pos [of property g g'] True show ?thesis
        by (simp add: Next_loop_unfold)
    next
      case (Continue g')
      with Next_iter_pos [of property g g'] have p: "pos g' = pos g + 1"
        "codePoints g' = codePoints g" by simp_all
      with Suc.prems have "length (codePoints g') + 1 - pos g' \<le> fuel" by simp
      note ih = Suc.IH [OF this]
      from Next_iter_Continue' [OF Continue] True have "pos g' \<le> length (codePoints g')"
        by simp
      from Next_loop_pos [OF this, of property] p
      have "pos g' < pos (Next_loop property g')" by simp
      with ih p True Continue show ?thesis
        by (simp add: Next_loop_unfold)
    qed
  qed
qed

lemma Next_fuel_eq:
  "length (codePoints g) + 1 - pos g \<le> fuel \<Longrightarrow>
     Next_fuel fuel property g
       = Some (Next property g, fuel - (pos (snd (Next property g)) - pos g))"
  using Next_loop_fuel_eq [of "g\<lparr>start := end' g\<rparr>" fuel property]
  by (simp add: Next_fuel_def Next_def Let_def)

lemma drain_fuel_eq:
  "iter_inv g \<Longrightarrow> 2 * (length (codePoints g) - end' g) + 1 \<le> fuel \<Longrightarrow>
     drain_fuel fuel property g = Some (drain property g)"
proof (induction property g arbitrary: fuel rule: drain.induct)
  case (1 property g)
  from 1(3) obtain f where fuel: "fuel = Suc f" by (cases fuel) simp_all
  from 1(2) have pg: "pos g = Suc (end' g)" "end' g \<le> length (codePoints g)"
    by (simp_all add: iter_inv_def)
  with 1(3) fuel have "length (codePoints g) + 1 - pos g \<le> f" by simp
  note nf = Next_fuel_eq [OF this, of property]
  note inv = Next_inv [OF 1(2), of property]
  let ?h = "snd (Next property g)"
  show ?case
  proof (cases "fst (Next property g)")
    case False
    with nf show ?thesis by (simp add: fuel drain_Nil)
  next
    case True
    with inv have h: "iter_inv ?h" "end' g < end' ?h" by simp_all
    then have ph: "pos ?h = Suc (end' ?h)" "end' ?h \<le> length (codePoints ?h)"
      by (simp_all add: iter_inv_def)
    have c: "codePoints ?h = codePoints g" by (simp add: Next_fields)
    from 1(3) fuel pg ph h c
    have "2 * (length (codePoints ?h) - end' ?h) + 1 \<le> f - (pos ?h - pos g)" by simp
    from 1(1) [OF True h(1) this] nf True show ?thesis
      by (simp add: fuel drain_Cons)
  qed
qed

lemma firstGraphemeCluster_loop_unfold:
  "firstGraphemeCluster_loop property b n st =
     (case firstGraphemeCluster_iter property b n st of
        Break res \<Rightarrow> res
      | Continue v \<Rightarrow> firstGraphemeCluster_loop property b (fst v) (snd v))"
  by (rule firstGraphemeCluster_loop.simps)

lemma firstGraphemeCluster_loop_fuel_eq:
  "n < length b \<Longrightarrow> length b - n \<le> fuel \<Longrightarrow>
     map_option fst (firstGraphemeCluster_loop_fuel fuel property b n st)
       = Some (firstGraphemeCluster_loop property b n st)"
proof (induction fuel arbitrary: n st)
  case 0
  then show ?case by simp
next
  case (Suc fuel)
  show ?case
  proof (cases "firstGraphemeCluster_iter property b n st")
    case (Break res)
    then show ?thesis by (simp add: firstGraphemeCluster_loop_unfold [of property b n st])
  next
    case (Continue v)
    then have "firstGraphemeCluster_iter property b n st = Continue (fst v, snd v)" by simp
    from firstGraphemeCluster_iter_Continue [OF this] Suc.prems
    have "fst v < length b" "length b - fst v \<le> fuel" by auto
    from Suc.IH [OF this] Continue show ?thesis
      by (simp add: firstGraphemeCluster_loop_unfold [of property b n st])
  qed
qed

lemma firstGraphemeCluster_fuel_eq:
  assumes "length b \<le> fuel"
  shows "map_option fst (firstGraphemeCluster_fuel fuel property b st)
       = Some (firstGraphemeCluster property b st)"
proof (cases "b = []")
  case True
  then show ?thesis by (simp add: firstGraphemeCluster_fuel_def firstGraphemeCluster_def)
next
  case False
  show ?thesis
  proof (cases "length b \<le> snd (DecodeRune b)")
    case True
    with False show ?thesis
      by (simp add: firstGraphemeCluster_fuel_def firstGraphemeCluster_short Let_def)
  next
    case le: False
    then have "snd (DecodeRune b) < length b" by simp
    from firstGraphemeCluster_loop_fuel_eq [OF this, of fuel property] assms
    have "map_option fst (firstGraphemeCluster_loop_fuel fuel property b (snd (DecodeRune b))
       (if st < 0 then fst (transitionGraphemeState property grAny (fst (DecodeRune b))) else st))
       = Some (firstGraphemeCluster_loop property b (snd (DecodeRune b))
       (if st < 0 then fst (transitionGraphemeState property grAny (fst (DecodeRune b))) else st))"
      by simp
    with False le show ?thesis
      by (simp add: firstGraphemeCluster_fuel_def firstGraphemeCluster_unfold Let_def)
  qed
qed

lemma firstGraphemeClusterInString_loop_fuel_eq:
  "firstGraphemeClusterInString_loop_fuel fuel property str n st
     = firstGraphemeCluster_loop_fuel fuel property str n st"
  by (induction fuel arbitrary: n st)
     (simp_all add: firstGraphemeClusterInString_iter_eq split: loop.splits)

lemma firstGraphemeClusterInString_fuel_eq:
  "firstGraphemeClusterInString_fuel fuel property str st
     = firstGraphemeCluster_fuel fuel property str st"
  by (simp add: firstGraphemeClusterInString_fuel_def firstGraphemeCluster_fuel_def
      firstGraphemeClusterInString_loop_fuel_eq DecodeRuneInString_def Let_def)


lemma RuneCountInString_le: "RuneCountInString s \<le> length s"
proof (induction s rule: RuneCountInString.induct)
  case (1 s)
  show ?case
  proof (cases "s = []")
    case True
    then show ?thesis by simp
  next
    case False
    from 1 [OF False] DecodeRune_width_pos [OF False] DecodeRune_width_le [of s]
    show ?thesis
      by (simp add: RuneCountInString_Cons [OF False] DecodeRuneInString_def)
  qed
qed

subsection \<open>The iterator and the streaming function perform the same scan\<close>

lemma scan_state_nonneg_aux: "grTransitions k = Some v \<Longrightarrow> 0 \<le> fst v"
  by (auto simp: grTransitions_def gr_defs split: if_splits)

lemma transitionGraphemeState_nonneg: "0 \<le> fst (transitionGraphemeState property st r)"
  by (auto simp: transitionGraphemeState_def Let_def grAny_def
      split: option.splits dest: scan_state_nonneg_aux)

lemma Next_loop_scan:
  "0 < pos g \<Longrightarrow> pos g \<le> length (codePoints g) \<Longrightarrow>
     Next_loop property g =
       g\<lparr>state := snd (scan property (state g) (drop (pos g) (codePoints g))),
         end' := pos g + fst (scan property (state g) (drop (pos g) (codePoints g))),
         pos := pos g + fst (scan property (state g) (drop (pos g) (codePoints g))) + 1\<rparr>"
proof (induction property g rule: Next_loop.induct)
  case (1 property g)
  show ?case
  proof (cases "pos g = length (codePoints g)")
    case True
    then have "Next_iter property g = Break (g\<lparr>end' := pos g, pos := pos g + 1\<rparr>)"
      by (simp add: Next_iter_def)
    with True 1(3) show ?thesis by (simp add: Next_loop_unfold)
  next
    case False
    with 1(3) have lt: "pos g < length (codePoints g)" by simp
    let ?t = "transitionGraphemeState property (state g) (codePoints g ! pos g)"
    have d: "drop (pos g) (codePoints g) = codePoints g ! pos g # drop (Suc (pos g)) (codePoints g)"
      using lt by (simp add: Cons_nth_drop_Suc)
    show ?thesis
    proof (cases "snd ?t")
      case True
      with False 1(2) have "Next_iter property g
          = Break (g\<lparr>state := fst ?t, end' := pos g, pos := pos g + 1\<rparr>)"
        by (simp add: Next_iter_def Let_def)
      with True 1(3) show ?thesis by (simp add: Next_loop_unfold d Let_def)
    next
      case nb: False
      let ?g' = "g\<lparr>state := fst ?t, pos := pos g + 1\<rparr>"
      from nb False 1(2) have c: "Next_iter property g = Continue ?g'"
        by (simp add: Next_iter_def Let_def)
      from lt have "0 < pos ?g'" "pos ?g' \<le> length (codePoints ?g')" by simp_all
      from 1(1) [OF 1(3) c this] c nb 1(3) show ?thesis
        by (simp add: Next_loop_unfold d Let_def)
    qed
  qed
qed

lemma rangeString_suffix:
  "j < length (rangeString p s) \<Longrightarrow>
     rangeString (fst (rangeString p s ! j)) (drop (nat (fst (rangeString p s ! j) - p)) s)
       = drop j (rangeString p s)"
proof (induction j arbitrary: p s)
  case 0
  then have "rangeString p s \<noteq> []" by auto
  from rangeString_hd [OF this] this have "fst (rangeString p s ! 0) = p"
    by (simp add: hd_conv_nth)
  then show ?case by simp
next
  case (Suc j)
  then have ne: "s \<noteq> []" by auto
  let ?w = "snd (DecodeRune s)"
  let ?xs = "rangeString (p + int ?w) (drop ?w s)"
  have c: "rangeString p s = (p, fst (DecodeRune s)) # ?xs" by (rule rangeString_Cons [OF ne])
  from Suc.prems c have j: "j < length ?xs" by simp
  from c have n: "rangeString p s ! Suc j = ?xs ! j" by simp
  from j have "(fst (?xs ! j), snd (?xs ! j)) \<in> set ?xs" by simp
  from rangeString_offsets [OF this] have ge: "p + int ?w \<le> fst (?xs ! j)" by simp
  then have "nat (fst (?xs ! j) - p) = nat (fst (?xs ! j) - (p + int ?w)) + ?w" by simp
  then have "drop (nat (fst (?xs ! j) - p)) s
      = drop (nat (fst (?xs ! j) - (p + int ?w))) (drop ?w s)"
    by (simp add: add.commute)
  with Suc.IH [OF j] show ?case unfolding n by (simp add: c)
qed

lemma nat_shift: "q + int w \<le> x \<Longrightarrow> n + w + nat (x - (q + int w)) = n + nat (x - q)"
  by arith

lemma scan_le: "fst (scan property st rs) \<le> length rs"
  by (induction rs arbitrary: st) (simp_all add: Let_def)

lemma firstGraphemeCluster_loop_scan:
  "n < length b \<Longrightarrow>
     firstGraphemeCluster_loop property b n st =
       (let xs = rangeString q (drop n b);
            k = fst (scan property st (map snd xs))
        in if k = length xs then (b, [], grAny)
           else (take (n + nat (fst (xs ! k) - q)) b, drop (n + nat (fst (xs ! k) - q)) b,
                 snd (scan property st (map snd xs))))"
proof (induction property b n st arbitrary: q rule: firstGraphemeCluster_loop.induct)
  case (1 property b n st)
  define r where "r = fst (DecodeRune (drop n b))"
  define w where "w = snd (DecodeRune (drop n b))"
  define t where "t = transitionGraphemeState property st r"
  define xs' where "xs' = rangeString (q + int w) (drop (n + w) b)"
  define k where "k = fst (scan property (fst t) (map snd xs'))"
  define st' where "st' = snd (scan property (fst t) (map snd xs'))"
  from 1(2) have ne: "drop n b \<noteq> []" by simp
  have dd: "drop w (drop n b) = drop (n + w) b" by (simp add: add.commute)
  have c: "rangeString q (drop n b) = (q, r) # xs'"
    unfolding r_def w_def xs'_def dd [unfolded w_def, symmetric]
    by (rule rangeString_Cons [OF ne])
  have it: "firstGraphemeCluster_iter property b n st =
     (if snd t then Break (take n b, drop n b, fst t)
      else if length b \<le> n + w then Break (b, [], grAny) else Continue (n + w, fst t))"
    by (simp add: firstGraphemeCluster_iter_def Let_def r_def w_def t_def)
  have sc: "scan property st (map snd ((q, r) # xs')) =
     (if snd t then (0, fst t) else (Suc k, st'))"
    by (simp add: Let_def t_def k_def st'_def)
  show ?case
  proof (cases "snd t")
    case True
    with it sc show ?thesis
      by (simp add: firstGraphemeCluster_loop_unfold [of property b n st] c Let_def)
  next
    case nb: False
    show ?thesis
    proof (cases "length b \<le> n + w")
      case True
      then have "xs' = []" by (simp add: xs'_def)
      with True nb it sc show ?thesis
        by (simp add: firstGraphemeCluster_loop_unfold [of property b n st] c Let_def
            k_def)
    next
      case False
      with nb it have i: "firstGraphemeCluster_iter property b n st = Continue (n + w, fst t)"
        by simp
      from False have lt: "fst (n + w, fst t) < length b" by simp
      from 1(1) [OF i lt, of "q + int w"]
      have ih: "firstGraphemeCluster_loop property b (n + w) (fst t) =
        (if k = length xs' then (b, [], grAny)
         else (take (n + w + nat (fst (xs' ! k) - (q + int w))) b,
               drop (n + w + nat (fst (xs' ! k) - (q + int w))) b, st'))"
        by (simp add: Let_def xs'_def k_def st'_def)
      have lp: "firstGraphemeCluster_loop property b n st
          = firstGraphemeCluster_loop property b (n + w) (fst t)"
        using i by (simp add: firstGraphemeCluster_loop_unfold [of property b n st])
      show ?thesis
      proof (cases "k = length xs'")
        case True
        with ih lp sc nb show ?thesis by (simp add: c Let_def)
      next
        case kf: False
        have "k \<le> length xs'"
          unfolding k_def using scan_le [of property "fst t" "map snd xs'"] by simp
        with kf have "k < length xs'" by simp
        then have "(fst (xs' ! k), snd (xs' ! k)) \<in> set xs'" by simp
        from rangeString_offsets [OF this [unfolded xs'_def] ]
        have "q + int w \<le> fst (xs' ! k)" by (simp add: xs'_def)
        then have "n + w + nat (fst (xs' ! k) - (q + int w)) = n + nat (fst (xs' ! k) - q)"
          by (rule nat_shift)
        with kf ih lp sc nb show ?thesis by (simp add: c Let_def)
      qed
    qed
  qed
qed

lemma scan_state_nonneg:
  "fst (scan property st rs) < length rs \<Longrightarrow> 0 \<le> snd (scan property st rs)"
proof (induction rs arbitrary: st)
  case Nil
  then show ?case by simp
next
  case (Cons r rs)
  then show ?case
    by (auto simp: Let_def transitionGraphemeState_nonneg split: if_splits)
qed

lemma byte_offsets_nth:
  "j < length (rangeString 0 s) \<Longrightarrow> byte_offsets s ! j = fst (rangeString 0 s ! j)"
  "byte_offsets s ! length (rangeString 0 s) = int (length s)"
  by (simp_all add: byte_offsets_def nth_append)

lemma firstGraphemeCluster_all_Nil: "firstGraphemeCluster_all property [] st = ([], st)"
  by (simp add: firstGraphemeCluster_all.simps [of property "[]" st])

lemma firstGraphemeCluster_all_Cons:
  "b \<noteq> [] \<Longrightarrow> firstGraphemeCluster property b st = (c, rest, st') \<Longrightarrow>
     fst (firstGraphemeCluster_all property b st)
       = c # fst (firstGraphemeCluster_all property rest st')"
  by (simp add: firstGraphemeCluster_all.simps [of property b st] Let_def)

lemma stream_iterator_sim:
  assumes "iter_inv g"
    and "codePoints g = map snd (rangeString 0 b0)"
    and "end' g < length (rangeString 0 b0)"
    and "state g = (if st < 0
           then fst (transitionGraphemeState property grAny (snd (rangeString 0 b0 ! end' g)))
           else st)"
  shows "fst (firstGraphemeCluster_all property (drop (nat (byte_offsets b0 ! end' g)) b0) st)
     = map (\<lambda>h. take (nat (byte_offsets b0 ! end' h) - nat (byte_offsets b0 ! start h))
                  (drop (nat (byte_offsets b0 ! start h)) b0))
         (drain property g)"
  using assms
proof (induction "length (rangeString 0 b0) - end' g" arbitrary: g st rule: less_induct)
  case less
  define xs0 where "xs0 = rangeString 0 b0"
  define i where "i = end' g"
  define off where "off = fst (xs0 ! i)"
  define b where "b = drop (nat off) b0"
  define r where "r = fst (DecodeRune b)"
  define w where "w = snd (DecodeRune b)"
  define xs' where "xs' = rangeString (off + int w) (drop w b)"
  define k where "k = fst (scan property (state g) (map snd xs'))"
  define st' where "st' = snd (scan property (state g) (map snd xs'))"
  define h where "h = snd (Next property g)"
  note inv = less.prems(1)
  have cps: "codePoints g = map snd xs0" using less.prems(2) by (simp add: xs0_def)
  have i: "i < length xs0" using less.prems(3) by (simp add: xs0_def i_def)
  have oi: "byte_offsets b0 ! i = off"
    using i by (simp add: byte_offsets_nth(1) xs0_def off_def)
  from i have "(fst (xs0 ! i), snd (xs0 ! i)) \<in> set xs0" by simp
  from rangeString_offsets [OF this [unfolded xs0_def] ]
  have off0: "0 \<le> off" "off < int (length b0)" by (simp_all add: off_def xs0_def)
  have suf: "rangeString off b = drop i xs0"
    using rangeString_suffix [of i 0 b0] i by (simp add: xs0_def off_def b_def)
  have dr: "drop i xs0 = xs0 ! i # drop (Suc i) xs0" using i by (simp add: Cons_nth_drop_Suc)
  have bne: "b \<noteq> []"
  proof
    assume "b = []"
    with suf dr show False by simp
  qed
  from rangeString_Cons [OF bne, of off] suf dr
  have x: "xs0 ! i = (off, r)" and xs': "drop (Suc i) xs0 = xs'"
    by (simp_all add: r_def w_def xs'_def)
  have lx: "length xs' = length xs0 - Suc i" using xs' [symmetric] by simp
  \<comment> \<open>the iterator\<close>
  from inv have pg: "pos g = Suc i" "start g \<le> i"
    by (simp_all add: iter_inv_def i_def)
  have dc: "drop (Suc i) (codePoints g) = map snd xs'"
    by (simp add: cps drop_map xs')
  have nl: "Next_loop property (g\<lparr>start := i\<rparr>) =
      g\<lparr>start := i, state := st', end' := Suc i + k, pos := Suc i + k + 1\<rparr>"
    using i by (subst Next_loop_scan) (simp_all add: pg cps drop_map xs' k_def st'_def)
  have hh: "h = g\<lparr>start := i, state := st', end' := Suc i + k, pos := Suc i + k + 1\<rparr>"
    and more: "fst (Next property g)"
    by (simp_all add: h_def Next_def Let_def nl [unfolded i_def] i_def)
  have hf: "start h = i" "end' h = Suc i + k" "state h = st'" "codePoints h = map snd xs0"
    by (simp_all add: hh cps)
  have hinv: "iter_inv h" using Next_inv [OF inv, of property] by (simp add: h_def)
  have dg: "drain property g = h # drain property h"
    using drain_Cons [OF more] by (simp add: h_def)
  have kle: "k \<le> length xs'"
    unfolding k_def using scan_le [of property "state g" "map snd xs'"] by simp
  \<comment> \<open>the streaming function\<close>
  have st1: "(if st < 0 then fst (transitionGraphemeState property grAny r) else st) = state g"
    using less.prems(4) x by (simp add: i_def xs0_def)
  have fgc: "firstGraphemeCluster property b st =
      (if k = length xs' then (b, [], grAny)
       else (take (w + nat (fst (xs' ! k) - (off + int w))) b,
             drop (w + nat (fst (xs' ! k) - (off + int w))) b, st'))"
  proof (cases "length b \<le> w")
    case True
    then have "xs' = []" by (simp add: xs'_def)
    with True bne show ?thesis
      by (simp add: firstGraphemeCluster_short w_def k_def)
  next
    case False
    then have lt: "w < length b" by simp
    from False have nle: "\<not> length b \<le> snd (DecodeRune b)" by (simp add: w_def)
    have "firstGraphemeCluster property b st = firstGraphemeCluster_loop property b w (state g)"
      using firstGraphemeCluster_unfold [OF bne nle, of property st]
      unfolding st1 [unfolded r_def] w_def .
    also note firstGraphemeCluster_loop_scan [OF lt, of property "state g" "off + int w"]
    finally show ?thesis
      by (simp add: Let_def xs'_def [symmetric] k_def [symmetric] st'_def [symmetric])
  qed
  have bb: "take (length b0 - nat off) b = b" by (simp add: b_def)
  show ?case
  proof (cases "k = length xs'")
    case True
    with lx i have e: "end' h = length xs0" by (simp add: hf)
    from Next_inv [OF hinv, of property] e have "\<not> fst (Next property h)" by (simp add: hf)
    then have dh: "drain property h = []" by (rule drain_Nil)
    from True fgc have "firstGraphemeCluster property b st = (b, [], grAny)" by simp
    from firstGraphemeCluster_all_Cons [OF bne this]
    have "fst (firstGraphemeCluster_all property b st) = [b]"
      by (simp add: firstGraphemeCluster_all_Nil)
    moreover have "byte_offsets b0 ! end' h = int (length b0)"
      using byte_offsets_nth(2) [of b0] by (simp add: e xs0_def)
    ultimately show ?thesis
      by (simp add: dg dh hf oi bb i_def [symmetric] b_def [symmetric])
  next
    case False
    with kle have klt: "k < length xs'" by simp
    with lx have e: "end' h < length xs0" by (simp add: hf)
    have xe: "xs' ! k = xs0 ! end' h"
      using klt lx by (simp add: xs' [symmetric] hf)
    have oe: "byte_offsets b0 ! end' h = fst (xs' ! k)"
      using e by (simp add: byte_offsets_nth(1) xs0_def [symmetric] xe)
    from klt have "(fst (xs' ! k), snd (xs' ! k)) \<in> set xs'" by simp
    from rangeString_offsets [OF this [unfolded xs'_def] ]
    have ge: "off + int w \<le> fst (xs' ! k)" by (simp add: xs'_def)
    define m where "m = w + nat (fst (xs' ! k) - (off + int w))"
    from ge off0 have m: "m = nat (fst (xs' ! k)) - nat off" "m + nat off = nat (fst (xs' ! k))"
      by (simp_all add: m_def)
    from False fgc have f: "firstGraphemeCluster property b st = (take m b, drop m b, st')"
      by (simp add: m_def)
    have rest: "drop m b = drop (nat (byte_offsets b0 ! end' h)) b0"
      by (simp add: b_def oe m(2))
    from klt have "0 \<le> st'"
      unfolding st'_def k_def using scan_state_nonneg [of property "state g" "map snd xs'"]
      by simp
    then have sth: "state h = (if st' < 0
           then fst (transitionGraphemeState property grAny (snd (rangeString 0 b0 ! end' h)))
           else st')"
      by (simp add: hf)
    have "length (rangeString 0 b0) - end' h < length (rangeString 0 b0) - end' g"
      using i by (simp add: hf xs0_def [symmetric] i_def [symmetric])
    from less.hyps [OF this hinv _ _ sth] e
    have ih: "fst (firstGraphemeCluster_all property (drop m b) st')
       = map (\<lambda>h. take (nat (byte_offsets b0 ! end' h) - nat (byte_offsets b0 ! start h))
                  (drop (nat (byte_offsets b0 ! start h)) b0))
         (drain property h)"
      by (simp add: hf xs0_def rest)
    have oe': "byte_offsets b0 ! Suc (i + k) = fst (xs' ! k)" using oe by (simp add: hf)
    from firstGraphemeCluster_all_Cons [OF bne f] ih
    show ?thesis
      by (simp add: dg hf oi oe' m(1) i_def [symmetric] b_def [symmetric])
  qed
qed

lemma NewGraphemes_state:
  assumes "rangeString 0 s \<noteq> []"
  shows "state (NewGraphemes property s)
           = fst (transitionGraphemeState property grAny (snd (rangeString 0 s ! 0)))"
proof -
  let ?g = "\<lparr>codePoints = map snd (rangeString 0 s), indices = map fst (rangeString 0 s) @ [int (length s)],
        start = 0, end' = 0, pos = 0, state = 0\<rparr>"
  let ?t = "transitionGraphemeState property 0 (snd (rangeString 0 s ! 0))"
  from assms have "Next_iter property ?g = Break (?g\<lparr>state := fst ?t, end' := 0, pos := 1\<rparr>)"
    by (simp add: Next_iter_def Let_def)
  then have "Next_loop property ?g = ?g\<lparr>state := fst ?t, end' := 0, pos := 1\<rparr>"
    by (simp add: Next_loop_unfold)
  then show ?thesis
    by (simp add: NewGraphemes_eq Next_def Let_def grAny_def)
qed

lemma NewGraphemes_indices: "indices (NewGraphemes property s) = byte_offsets s"
  by (simp add: NewGraphemes_fields byte_offsets_def)

lemma streaming_ranges:
  "fst (firstGraphemeCluster_all property s (-1))
     = map (\<lambda>h. take (nat (byte_offsets s ! end' h) - nat (byte_offsets s ! start h))
                  (drop (nat (byte_offsets s ! start h)) s))
         (drain property (NewGraphemes property s))"
proof (cases "rangeString 0 s = []")
  case True
  then have s: "s = []" by (cases "s = []") (simp_all add: rangeString_Cons)
  note f = NewGraphemes_fields [of property s]
  from Next_inv [OF f(5), of property] True have "\<not> fst (Next property (NewGraphemes property s))"
    by (simp add: f)
  then have "drain property (NewGraphemes property s) = []" by (rule drain_Nil)
  with s show ?thesis by (simp add: firstGraphemeCluster_all_Nil)
next
  case False
  let ?g = "NewGraphemes property s"
  note f = NewGraphemes_fields [of property s]
  from False have e: "end' ?g < length (rangeString 0 s)" by (simp add: f)
  have st: "state ?g = (if (-1::int) < 0
           then fst (transitionGraphemeState property grAny (snd (rangeString 0 s ! end' ?g)))
           else -1)"
    by (simp add: NewGraphemes_state [OF False] f)
  have "byte_offsets s ! 0 = 0"
    using NewGraphemes_indices_0 [of property s] by (simp add: NewGraphemes_indices)
  with stream_iterator_sim [OF f(5) f(1) e st] show ?thesis by (simp add: f)
qed

lemma byte_offsets_sorted: "sorted_wrt (<) (byte_offsets s)"
  using indices_sorted [of 0 s] by (simp add: byte_offsets_def)

lemma byte_offsets_bounds:
  assumes "a < e" and "e \<le> length (rangeString 0 s)"
  shows "0 \<le> byte_offsets s ! a \<and> byte_offsets s ! a < byte_offsets s ! e
       \<and> byte_offsets s ! e \<le> int (length s)"
proof -
  have len: "length (byte_offsets s) = Suc (length (rangeString 0 s))"
    by (simp add: byte_offsets_def)
  from assms have a: "a < length (rangeString 0 s)" by simp
  then have "(fst (rangeString 0 s ! a), snd (rangeString 0 s ! a)) \<in> set (rangeString 0 s)"
    by simp
  from rangeString_offsets [OF this] a have 1: "0 \<le> byte_offsets s ! a"
    by (simp add: byte_offsets_nth(1))
  from assms len have 2: "byte_offsets s ! a < byte_offsets s ! e"
    by (intro sorted_wrt_nth_less [OF byte_offsets_sorted]) simp_all
  have 3: "byte_offsets s ! e \<le> int (length s)"
  proof (cases "e = length (rangeString 0 s)")
    case True
    then show ?thesis by (simp add: byte_offsets_nth(2))
  next
    case False
    with assms len have "byte_offsets s ! e < byte_offsets s ! length (rangeString 0 s)"
      by (intro sorted_wrt_nth_less [OF byte_offsets_sorted]) simp_all
    then show ?thesis by (simp add: byte_offsets_nth(2))
  qed
  from 1 2 3 show ?thesis by simp
qed

lemma drain_NewGraphemes_ranges:
  assumes "h \<in> set (drain property (NewGraphemes property s))"
  shows "start h < end' h \<and> end' h \<le> length (rangeString 0 s)
       \<and> codePoints h = map snd (rangeString 0 s) \<and> indices h = byte_offsets s"
proof -
  note f = NewGraphemes_fields [of property s]
  from tiles_map_cong [OF drain_tiles [OF f(5), of property] le_refl] assms
  have "start h < end' h \<and> end' h \<le> length (codePoints (NewGraphemes property s))"
    by auto
  with drain_fields [OF assms] show ?thesis
    by (simp add: f NewGraphemes_indices)
qed

lemma drain_Positions_slice:
  assumes "h \<in> set (drain property (NewGraphemes property s))"
  shows "(case Positions h of Inl e \<Rightarrow> Inl e | Inr p \<Rightarrow> slice s (nat (fst p)) (nat (snd p)))
     = Inr (take (nat (byte_offsets s ! end' h) - nat (byte_offsets s ! start h))
              (drop (nat (byte_offsets s ! start h)) s))"
proof -
  note r = drain_NewGraphemes_ranges [OF assms]
  from r have "Positions h = Inr (byte_offsets s ! start h, byte_offsets s ! end' h)"
    by (simp add: Positions_def byte_offsets_def)
  moreover from r byte_offsets_bounds [of "start h" "end' h" s]
  have "nat (byte_offsets s ! start h) \<le> nat (byte_offsets s ! end' h)"
    "nat (byte_offsets s ! end' h) \<le> length s"
    by auto
  ultimately show ?thesis by (simp add: slice_def)
qed

lemma string_of_runes_append:
  "string_of_runes (xs @ ys) = string_of_runes xs @ string_of_runes ys"
  by (simp add: string_of_runes_def)

lemma rune_offsets_prefix:
  "list_all ValidRune rs \<Longrightarrow> j \<le> length rs \<Longrightarrow>
     (rune_offsets p rs @ [p + int (length (string_of_runes rs))]) ! j
       = p + int (length (string_of_runes (take j rs)))"
proof (induction rs arbitrary: p j)
  case Nil
  then show ?case by (simp add: string_of_runes_def)
next
  case (Cons r rs)
  from Cons.prems have v: "ValidRune r" "list_all ValidRune rs" by simp_all
  from DecodeRune_EncodeRune [OF v(1), of "[]"]
  have l: "int (length (EncodeRune r)) = RuneLen r" by simp
  have s: "string_of_runes (r # xs) = EncodeRune r @ string_of_runes xs" for xs
    by (simp add: string_of_runes_def)
  show ?case
  proof (cases j)
    case 0
    then show ?thesis by (simp add: string_of_runes_def)
  next
    case (Suc j')
    with Cons.prems have "j' \<le> length rs" by simp
    from Cons.IH [OF v(2) this, of "p + RuneLen r"] Suc show ?thesis
      by (simp add: s l [symmetric] add.assoc)
  qed
qed

lemma byte_offsets_string_of_runes:
  assumes "list_all ValidRune rs" and "j \<le> length rs"
  shows "byte_offsets (string_of_runes rs) ! j = int (length (string_of_runes (take j rs)))"
proof -
  have "byte_offsets (string_of_runes rs)
      = rune_offsets 0 rs @ [0 + int (length (string_of_runes rs))]"
    by (simp add: byte_offsets_def rangeString_string_of_runes [OF assms(1)])
  with rune_offsets_prefix [OF assms, of 0] show ?thesis by simp
qed

lemma string_of_runes_slice:
  assumes "list_all ValidRune rs" and "a \<le> e" and "e \<le> length rs"
  shows "take (nat (byte_offsets (string_of_runes rs) ! e) - nat (byte_offsets (string_of_runes rs) ! a))
           (drop (nat (byte_offsets (string_of_runes rs) ! a)) (string_of_runes rs))
       = string_of_runes (take (e - a) (drop a rs))"
proof -
  let ?pre = "string_of_runes (take a rs)"
  let ?mid = "string_of_runes (take (e - a) (drop a rs))"
  let ?post = "string_of_runes (drop e rs)"
  from assms have te: "take e rs = take a rs @ take (e - a) (drop a rs)"
    by (metis le_add_diff_inverse take_add)
  have "rs = take e rs @ drop e rs" by simp
  then have "string_of_runes rs = ?pre @ ?mid @ ?post"
    by (metis te string_of_runes_append append_assoc)
  moreover from assms have "byte_offsets (string_of_runes rs) ! a = int (length ?pre)"
    by (intro byte_offsets_string_of_runes) simp_all
  moreover from assms have "byte_offsets (string_of_runes rs) ! e = int (length ?pre + length ?mid)"
    by (simp add: byte_offsets_string_of_runes te string_of_runes_append)
  ultimately show ?thesis by simp
qed

section \<open>Properties\<close>

subsection \<open>The wildcard cascade of the resolver\<close>

text \<open>
  C1. For a (state, property) pair with no exact entry in the table: when both the
  state-specific wildcard entry (state, prAny) and the property-specific wildcard entry
  (grAny, property) exist, the resolver returns the next state of the property-specific
  entry and the boundary flag of the entry with the lower rule number, the
  property-specific one when the numbers are equal; when neither exists it returns
  (grAny, true).
\<close>

theorem transitionGraphemeState_wildcards:
  assumes "grTransitions (st, property r) = None"
  shows "(\<forall>sa ba ra sb bb rb.
            grTransitions (st, prAny) = Some (sa, ba, ra) \<and>
            grTransitions (grAny, property r) = Some (sb, bb, rb) \<longrightarrow>
            transitionGraphemeState property st r =
              (sb, if ra < rb then ba = grBoundary else bb = grBoundary))
       \<and> (grTransitions (st, prAny) = None \<and> grTransitions (grAny, property r) = None \<longrightarrow>
            transitionGraphemeState property st r = (grAny, True))"
  using assms by (simp add: transitionGraphemeState_def)

theorem transitionGraphemeState_wildcards_witness:
  "grTransitions (grPrepend, sample_property 0x1100) = None
   \<and> grTransitions (grPrepend, prAny) = Some (grAny, grNoBoundary, 92)
   \<and> grTransitions (grAny, sample_property 0x1100) = Some (grL, grBoundary, 9990)
   \<and> transitionGraphemeState sample_property grPrepend 0x1100 = (grL, False)
   \<and> grTransitions (grL, sample_property 0x41) = None
   \<and> grTransitions (grL, prAny) = None
   \<and> grTransitions (grAny, sample_property 0x41) = None
   \<and> transitionGraphemeState sample_property grL 0x41 = (grAny, True)"
proof -
  have a: "grTransitions (grPrepend, sample_property 0x1100) = None"
    by (simp add: grTransitions_def sample_property_def gr_defs)
  have b: "grTransitions (grPrepend, prAny) = Some (grAny, grNoBoundary, 92)"
    by (simp add: grTransitions_def gr_defs)
  have c: "grTransitions (grAny, sample_property 0x1100) = Some (grL, grBoundary, 9990)"
    by (simp add: grTransitions_def sample_property_def gr_defs)
  have d: "grTransitions (grL, sample_property 0x41) = None"
    by (simp add: grTransitions_def sample_property_def gr_defs)
  have e: "grTransitions (grL, prAny) = None"
    by (simp add: grTransitions_def gr_defs)
  have f: "grTransitions (grAny, sample_property 0x41) = None"
    by (simp add: grTransitions_def sample_property_def gr_defs)
  from transitionGraphemeState_wildcards [of grPrepend sample_property "0x1100", OF a] b c
  have g: "transitionGraphemeState sample_property grPrepend 0x1100 = (grL, False)"
    by (simp add: gr_defs)
  from transitionGraphemeState_wildcards [of grL sample_property "0x41", OF d] e f
  have h: "transitionGraphemeState sample_property grL 0x41 = (grAny, True)"
    by simp
  from a b c d e f g h show ?thesis by simp
qed

subsection \<open>The streaming functions on an empty or exhausted buffer\<close>

text \<open>
  C4, as the code has it. On an empty buffer, firstGraphemeCluster and
  firstGraphemeClusterInString return an empty cluster, an empty remainder and the
  state 0 (grAny), whatever the carry-in state is: the results are the zero values of
  the named results, and the carry-in state is not handed back.
\<close>

theorem firstGraphemeCluster_empty:
  "firstGraphemeCluster property [] s = ([], [], grAny)
   \<and> firstGraphemeClusterInString property [] s = ([], [], grAny)"
  by (simp add: firstGraphemeCluster_def firstGraphemeClusterInString_def grAny_def)

theorem firstGraphemeCluster_empty_counterexample:
  "firstGraphemeCluster sample_property [] (-1) \<noteq> ([], [], -1)
   \<and> firstGraphemeClusterInString sample_property [] (-1) \<noteq> ([], [], -1)"
  by (simp add: firstGraphemeCluster_def firstGraphemeClusterInString_def)

text \<open>
  C5, as the code has it. For a non-empty buffer and any carry-in state, when
  firstGraphemeCluster or firstGraphemeClusterInString exhausts the buffer without
  finding a boundary inside it (the returned remainder is empty), it returns the whole
  buffer as the cluster, an empty remainder and the carry-out state grAny (0), not the
  value -1 that stands for an unknown state. Otherwise it has found a boundary inside
  the buffer and returns the two non-empty parts on either side of it.
\<close>

theorem firstGraphemeCluster_exhausted:
  assumes "b \<noteq> []"
    and "firstGraphemeCluster property b st = (c, rest, st')"
    and "firstGraphemeClusterInString property b st = (c2, rest2, st2)"
  shows "(rest = [] \<longrightarrow> c = b \<and> st' = grAny) \<and> (rest2 = [] \<longrightarrow> c2 = b \<and> st2 = grAny)
       \<and> (rest \<noteq> [] \<longrightarrow> (\<exists>m. 0 < m \<and> m < length b \<and> c = take m b \<and> rest = drop m b))
       \<and> (rest2 \<noteq> [] \<longrightarrow> (\<exists>m. 0 < m \<and> m < length b \<and> c2 = take m b \<and> rest2 = drop m b))"
proof -
  have 1: "rest = [] \<longrightarrow> c = b \<and> st' = grAny"
    using firstGraphemeCluster_rest_empty [OF assms(1) assms(2)] by blast
  from assms(3) have s: "firstGraphemeCluster property b st = (c2, rest2, st2)"
    by (simp add: firstGraphemeClusterInString_eq)
  then have 2: "rest2 = [] \<longrightarrow> c2 = b \<and> st2 = grAny"
    using firstGraphemeCluster_rest_empty [OF assms(1)] by blast
  have 3: "rest \<noteq> [] \<longrightarrow> (\<exists>m. 0 < m \<and> m < length b \<and> c = take m b \<and> rest = drop m b)"
    using firstGraphemeCluster_result [OF assms(1), of property st] assms(2) by auto
  have 4: "rest2 \<noteq> [] \<longrightarrow> (\<exists>m. 0 < m \<and> m < length b \<and> c2 = take m b \<and> rest2 = drop m b)"
    using firstGraphemeCluster_result [OF assms(1), of property st] s by auto
  from 1 2 3 4 show ?thesis by blast
qed

theorem firstGraphemeCluster_exhausted_witness:
  "[0x0D, 0x0A] \<noteq> ([] :: byte list)
   \<and> firstGraphemeCluster sample_property [0x0D, 0x0A] (-1) = ([0x0D, 0x0A], [], 0)
   \<and> firstGraphemeClusterInString sample_property [0x0D, 0x0A] (-1) = ([0x0D, 0x0A], [], 0)
   \<and> (0::int) = grAny"
proof -
  have a: "[0x0D, 0x0A] \<noteq> ([] :: byte list)" by simp
  have b: "firstGraphemeCluster sample_property [0x0D, 0x0A] (-1) = ([0x0D, 0x0A], [], 0)"
    by code_simp
  have c: "firstGraphemeClusterInString sample_property [0x0D, 0x0A] (-1)
             = ([0x0D, 0x0A], [], 0)"
    by code_simp
  from firstGraphemeCluster_exhausted [OF a b c] a b c show ?thesis by (simp add: grAny_def)
qed

theorem firstGraphemeCluster_exhausted_counterexample:
  "firstGraphemeCluster sample_property [0x0D, 0x0A] (-1) = ([0x0D, 0x0A], [], 0)
   \<and> firstGraphemeCluster sample_property [0x0D, 0x0A] (-1) \<noteq> ([0x0D, 0x0A], [], -1)
   \<and> firstGraphemeClusterInString sample_property [0x0D, 0x0A] (-1) = ([0x0D, 0x0A], [], 0)
   \<and> firstGraphemeClusterInString sample_property [0x0D, 0x0A] (-1)
        \<noteq> ([0x0D, 0x0A], [], -1)"
proof -
  have b: "firstGraphemeCluster sample_property [0x0D, 0x0A] (-1) = ([0x0D, 0x0A], [], 0)"
    by code_simp
  have c: "firstGraphemeClusterInString sample_property [0x0D, 0x0A] (-1)
             = ([0x0D, 0x0A], [], 0)"
    by code_simp
  from b c show ?thesis by simp
qed

subsection \<open>The accessors before the first cluster and after the last\<close>



subsection \<open>Replay after Reset\<close>

text \<open>
  C8. For the iterator of any string, after any number of calls of Next (partially or
  fully drained), Reset puts the iterator back into the very state the constructor
  returned; hence draining it afterwards yields, call by call, the same results of
  Runes, Str, Bytes and Positions (and the same results of Next) as draining a fresh
  iterator over the same string.
\<close>

theorem Reset_replays:
  "Reset property (((\<lambda>g. snd (Next property g)) ^^ k) (NewGraphemes property s))
     = NewGraphemes property s
   \<and> map (\<lambda>h. (Runes h, Str h, Bytes h, Positions h))
       (drain property
          (Reset property (((\<lambda>g. snd (Next property g)) ^^ k) (NewGraphemes property s))))
     = map (\<lambda>h. (Runes h, Str h, Bytes h, Positions h))
         (drain property (NewGraphemes property s))"
  by (simp add: Reset_NewGraphemes)

subsection \<open>The two constructors\<close>

text \<open>
  C10. For every slice rs of valid Unicode scalar values, NewGraphemesFromRunes(rs) and
  NewGraphemes over the UTF-8 encoding of rs build the same iterator (the same code
  points, byte indices and cursor), so that after any number of calls of Next both
  return the same result of Next and the same Runes, Str, Bytes and Positions.
\<close>

theorem NewGraphemesFromRunes_NewGraphemes:
  assumes "list_all ValidRune rs"
  shows "NewGraphemesFromRunes property rs = NewGraphemes property (string_of_runes rs)
       \<and> (\<forall>k. let a = ((\<lambda>g. snd (Next property g)) ^^ k) (NewGraphemesFromRunes property rs);
                  b = ((\<lambda>g. snd (Next property g)) ^^ k)
                        (NewGraphemes property (string_of_runes rs))
              in fst (Next property a) = fst (Next property b)
                 \<and> Runes a = Runes b \<and> Str a = Str b \<and> Bytes a = Bytes b
                 \<and> Positions a = Positions b)"
  by (simp add: NewGraphemes_string_of_runes [OF assms])

theorem NewGraphemesFromRunes_NewGraphemes_witness:
  "list_all ValidRune [0x1F1E9, 0x1F1EA, 0x308, 0x61]
   \<and> NewGraphemesFromRunes sample_property [0x1F1E9, 0x1F1EA, 0x308, 0x61]
       = NewGraphemes sample_property (string_of_runes [0x1F1E9, 0x1F1EA, 0x308, 0x61])
   \<and> string_of_runes [0x1F1E9, 0x1F1EA, 0x308, 0x61]
       = [0xF0, 0x9F, 0x87, 0xA9, 0xF0, 0x9F, 0x87, 0xAA, 0xCC, 0x88, 0x61]"
proof -
  have v: "list_all ValidRune [0x1F1E9, 0x1F1EA, 0x308, 0x61]"
    by (simp add: ValidRune_def)
  have s: "string_of_runes [0x1F1E9, 0x1F1EA, 0x308, 0x61]
       = [0xF0, 0x9F, 0x87, 0xA9, 0xF0, 0x9F, 0x87, 0xAA, 0xCC, 0x88, 0x61]"
    by code_simp
  from NewGraphemesFromRunes_NewGraphemes [OF v, of sample_property] v s
  show ?thesis by blast
qed

subsection \<open>A full drain partitions the input\<close>

text \<open>
  What a full drain of a fresh iterator does on every string: the cluster ranges are
  non-empty, consecutive and cover exactly [0, N) over the scalar indices, N being the
  rune count; Runes yields the corresponding scalars; the byte ranges of Positions
  tile [0, len(s)); the cluster texts concatenate to the encoding of the decoded
  scalars, which is the input itself when the input is the encoding of valid scalar
  values.
\<close>

lemma drain_partitions:
  "(let ds = drain property (NewGraphemes property s) in
     tiles 0 (map (\<lambda>h. (start h, end' h)) ds) (RuneCountInString s)
   \<and> map Runes ds
       = map (\<lambda>h. Inr (take (end' h - start h) (drop (start h) (map snd (rangeString 0 s))))) ds
   \<and> list_all (\<lambda>h. \<not> isl (Str h)) ds
   \<and> concat (map (\<lambda>h. projr (Str h)) ds) = string_of_runes (map snd (rangeString 0 s))
   \<and> list_all (\<lambda>h. \<not> isl (Positions h)) ds
   \<and> tiles 0 (map (\<lambda>h. projr (Positions h)) ds) (int (length s)))
   \<and> (\<forall>rs. list_all ValidRune rs \<longrightarrow>
         concat (map (\<lambda>h. projr (Str h))
                  (drain property (NewGraphemes property (string_of_runes rs))))
           = string_of_runes rs)"
proof -
  let ?g = "NewGraphemes property s"
  let ?ds = "drain property ?g"
  note f = NewGraphemes_fields [of property s]
  have inv: "iter_inv ?g" by (rule f)
  have n: "length (codePoints ?g) = RuneCountInString s"
    by (simp add: f RuneCountInString_eq [of s 0])
  have srt: "sorted_wrt (<) (indices ?g)"
    using indices_sorted [of 0 s] by (simp add: f)
  have 1: "tiles 0 (map (\<lambda>h. (start h, end' h)) ?ds) (RuneCountInString s)"
    using drain_tiles [OF inv, of property] by (simp add: f(4) n)
  have 2: "map Runes ?ds
       = map (\<lambda>h. Inr (take (end' h - start h) (drop (start h) (map snd (rangeString 0 s))))) ?ds"
    using drain_accessors(1) [OF inv, of property] by (simp add: f(1))
  have 3: "list_all (\<lambda>h. \<not> isl (Str h)) ?ds" by (rule drain_Str_concat(1) [OF inv])
  have 4: "concat (map (\<lambda>h. projr (Str h)) ?ds) = string_of_runes (map snd (rangeString 0 s))"
    using drain_Str_concat(2) [OF inv, of property] by (simp add: f(1,4))
  have 5: "list_all (\<lambda>h. \<not> isl (Positions h)) ?ds"
    by (rule drain_Positions_tiles(1) [OF inv srt])
  have 6: "tiles 0 (map (\<lambda>h. projr (Positions h)) ?ds) (int (length s))"
    using drain_Positions_tiles(2) [OF inv srt, of property]
      NewGraphemes_indices_0 [of property s] NewGraphemes_indices_last [of property s]
    by (simp add: f(4))
  have 7: "concat (map (\<lambda>h. projr (Str h))
                  (drain property (NewGraphemes property (string_of_runes rs))))
           = string_of_runes rs" if "list_all ValidRune rs" for rs
  proof -
    let ?g = "NewGraphemes property (string_of_runes rs)"
    note f = NewGraphemes_fields [of property "string_of_runes rs"]
    from drain_Str_concat(2) [OF f(5), of property] that show ?thesis
      by (simp add: f(1,4) decode_string_of_runes)
  qed
  from 1 2 3 4 5 6 7 show ?thesis by (simp add: Let_def)
qed

text \<open>
  C2. For every input string, a full drain of a fresh iterator yields clusters that
  partition the input: the ranges are non-empty, consecutive and cover [0, N), and
  concatenating the yielded cluster texts in order reproduces the original string
  exactly. The code does not reproduce a string that is not valid UTF-8: for the
  one-byte string 0xFF, under any classifier, the drain yields one cluster for which
  Positions reports the byte range (0, 1), whose bytes are the input, while Str and
  Bytes return the three bytes EF BF BD that encode U+FFFD, so that the concatenated
  texts differ from the input.
\<close>

theorem Str_not_original_on_invalid_utf8:
  "map Positions (drain property (NewGraphemes property [0xFF])) = [Inr (0, 1)]
   \<and> slice [0xFF :: byte] 0 1 = Inr [0xFF]
   \<and> map Str (drain property (NewGraphemes property [0xFF])) = [Inr [0xEF, 0xBF, 0xBD]]
   \<and> map Bytes (drain property (NewGraphemes property [0xFF])) = [Inr [0xEF, 0xBF, 0xBD]]
   \<and> concat (map (\<lambda>h. projr (Str h)) (drain property (NewGraphemes property [0xFF])))
       \<noteq> [0xFF]"
proof -
  have r: "rangeString 0 [0xFF] = [(0, 0xFFFD)]" by code_simp
  have e: "string_of_runes [0xFFFD] = [0xEF, 0xBF, 0xBD]" by code_simp
  define st where "st = fst (transitionGraphemeState property 0 0xFFFD)"
  let ?h = "\<lparr>codePoints = [0xFFFD], indices = [0, 1], start = 0, end' = 1, pos = 2,
             state = st\<rparr>"
  have d: "drain property (NewGraphemes property [0xFF]) = [?h]"
    unfolding NewGraphemes_eq r
    by (simp add: drain.simps Next_def Next_loop.simps Next_iter_def Let_def st_def)
  have 1: "Positions ?h = Inr (0, 1)" by (simp add: Positions_def)
  have 2: "slice [0xFF :: byte] 0 1 = Inr [0xFF]" by (simp add: slice_def)
  have 3: "Str ?h = Inr [0xEF, 0xBF, 0xBD]" "Bytes ?h = Inr [0xEF, 0xBF, 0xBD]"
    by (simp_all add: Str_def Bytes_def slice_def e)
  from 1 2 3 show ?thesis unfolding d by simp
qed

subsection \<open>Flags: regional indicators pair up\<close>

text \<open>
  C7. For an input of exactly three consecutive regional-indicator scalars, a full drain
  of the iterator yields exactly two clusters, the first holding the first two
  indicators and the second the third one alone; for exactly two consecutive regional
  indicators it yields one cluster holding both. This holds for an iterator built from
  the runes and for one built from any string that decodes to them.
\<close>

theorem regional_indicator_clusters:
  assumes "property r1 = prRegionalIndicator" and "property r2 = prRegionalIndicator"
    and "property r3 = prRegionalIndicator"
  shows "map Runes (drain property (NewGraphemesFromRunes property [r1, r2, r3]))
           = [Inr [r1, r2], Inr [r3] ]
       \<and> map Runes (drain property (NewGraphemesFromRunes property [r1, r2])) = [Inr [r1, r2] ]
       \<and> (\<forall>s. map snd (rangeString 0 s) = [r1, r2, r3] \<longrightarrow>
             map Runes (drain property (NewGraphemes property s)) = [Inr [r1, r2], Inr [r3] ])
       \<and> (\<forall>s. map snd (rangeString 0 s) = [r1, r2] \<longrightarrow>
             map Runes (drain property (NewGraphemes property s)) = [Inr [r1, r2] ])"
proof -
  have 1: "map Runes (drain property (NewGraphemesFromRunes property [r1, r2, r3]))
           = [Inr [r1, r2], Inr [r3] ]"
    unfolding NewGraphemesFromRunes_eq by (rule RI3 [OF assms])
  have 2: "map Runes (drain property (NewGraphemesFromRunes property [r1, r2])) = [Inr [r1, r2] ]"
    unfolding NewGraphemesFromRunes_eq by (rule RI2 [OF assms(1,2)])
  have 3: "map Runes (drain property (NewGraphemes property s)) = [Inr [r1, r2], Inr [r3] ]"
    if "map snd (rangeString 0 s) = [r1, r2, r3]" for s
    unfolding NewGraphemes_eq that by (rule RI3 [OF assms])
  have 4: "map Runes (drain property (NewGraphemes property s)) = [Inr [r1, r2] ]"
    if "map snd (rangeString 0 s) = [r1, r2]" for s
    unfolding NewGraphemes_eq that by (rule RI2 [OF assms(1,2)])
  from 1 2 3 4 show ?thesis by blast
qed

theorem regional_indicator_clusters_witness:
  "sample_property 0x1F1E9 = prRegionalIndicator \<and> sample_property 0x1F1EA = prRegionalIndicator
   \<and> sample_property 0x1F1EB = prRegionalIndicator
   \<and> map snd (rangeString 0 [0xF0, 0x9F, 0x87, 0xA9, 0xF0, 0x9F, 0x87, 0xAA, 0xF0, 0x9F, 0x87, 0xAB])
       = [0x1F1E9, 0x1F1EA, 0x1F1EB]
   \<and> map Runes (drain sample_property (NewGraphemes sample_property
         [0xF0, 0x9F, 0x87, 0xA9, 0xF0, 0x9F, 0x87, 0xAA, 0xF0, 0x9F, 0x87, 0xAB]))
       = [Inr [0x1F1E9, 0x1F1EA], Inr [0x1F1EB] ]
   \<and> map Runes (drain sample_property (NewGraphemesFromRunes sample_property [0x1F1E9, 0x1F1EA]))
       = [Inr [0x1F1E9, 0x1F1EA] ]"
proof -
  have p: "sample_property 0x1F1E9 = prRegionalIndicator"
    "sample_property 0x1F1EA = prRegionalIndicator"
    "sample_property 0x1F1EB = prRegionalIndicator"
    by (simp_all add: sample_property_def)
  have d: "map snd (rangeString 0
             [0xF0, 0x9F, 0x87, 0xA9, 0xF0, 0x9F, 0x87, 0xAA, 0xF0, 0x9F, 0x87, 0xAB])
       = [0x1F1E9, 0x1F1EA, 0x1F1EB]"
    by code_simp
  note t = regional_indicator_clusters [OF p]
  from t have a: "map Runes (drain sample_property
         (NewGraphemesFromRunes sample_property [0x1F1E9, 0x1F1EA]))
       = [Inr [0x1F1E9, 0x1F1EA] ]"
    by (elim conjE)
  from t have "\<forall>s. map snd (rangeString 0 s) = [0x1F1E9, 0x1F1EA, 0x1F1EB] \<longrightarrow>
      map Runes (drain sample_property (NewGraphemes sample_property s))
        = [Inr [0x1F1E9, 0x1F1EA], Inr [0x1F1EB] ]"
    by (elim conjE)
  from this [rule_format, OF d] p d a show ?thesis by (intro conjI)
qed

subsection \<open>Termination within a linear number of steps\<close>

text \<open>
  C9. Every operation terminates on every input. Each iteration of the scan loop of
  Next increases the scan position by one, and the position stays bounded by the
  scalar count plus one, so the loop finishes within len(codePoints) + 1 - pos
  iterations. Each iteration of the scan loops of firstGraphemeCluster and
  firstGraphemeClusterInString that does not return strictly increases the consumed
  byte length, which stays below the buffer length, so a call finishes within len(b)
  iterations. A full drain of a fresh iterator finishes within 2 N + 1 steps (loop
  iterations plus calls of Next), N being the scalar count, which is at most the byte
  length of the input.
\<close>

theorem scan_loops_terminate:
  "(\<forall>g g'. pos g \<le> length (codePoints g)
        \<and> (Next_iter property g = Break g' \<or> Next_iter property g = Continue g') \<longrightarrow>
        pos g' = pos g + 1 \<and> pos g' \<le> length (codePoints g') + 1)
   \<and> (\<forall>g fuel. length (codePoints g) + 1 - pos g \<le> fuel \<longrightarrow>
        map_option fst (Next_loop_fuel fuel property g) = Some (Next_loop property g))
   \<and> (\<forall>b n st n' st'.
        firstGraphemeCluster_iter property b n st = Continue (n', st')
        \<or> firstGraphemeClusterInString_iter property b n st = Continue (n', st') \<longrightarrow>
        n < n' \<and> n' < length b)
   \<and> (\<forall>b st fuel. length b \<le> fuel \<longrightarrow>
        map_option fst (firstGraphemeCluster_fuel fuel property b st)
          = Some (firstGraphemeCluster property b st)
        \<and> map_option fst (firstGraphemeClusterInString_fuel fuel property b st)
          = Some (firstGraphemeClusterInString property b st))
   \<and> (\<forall>s fuel. 2 * RuneCountInString s + 1 \<le> fuel \<longrightarrow>
        drain_fuel fuel property (NewGraphemes property s)
          = Some (drain property (NewGraphemes property s)))
   \<and> (\<forall>s. RuneCountInString s \<le> length s)"
proof -
  have 1: "pos g' = pos g + 1 \<and> pos g' \<le> length (codePoints g') + 1"
    if "pos g \<le> length (codePoints g)
        \<and> (Next_iter property g = Break g' \<or> Next_iter property g = Continue g')" for g g'
    using that Next_iter_pos [of property g g'] by auto
  have 2: "map_option fst (Next_loop_fuel fuel property g) = Some (Next_loop property g)"
    if "length (codePoints g) + 1 - pos g \<le> fuel" for g fuel
    by (simp add: Next_loop_fuel_eq [OF that])
  have 3: "n < n' \<and> n' < length b"
    if "firstGraphemeCluster_iter property b n st = Continue (n', st')
        \<or> firstGraphemeClusterInString_iter property b n st = Continue (n', st')"
    for b n st n' st'
    using that firstGraphemeCluster_iter_Continue [of property b n st n' st']
    by (auto simp: firstGraphemeClusterInString_iter_eq)
  have 4: "map_option fst (firstGraphemeCluster_fuel fuel property b st)
          = Some (firstGraphemeCluster property b st)
        \<and> map_option fst (firstGraphemeClusterInString_fuel fuel property b st)
          = Some (firstGraphemeClusterInString property b st)"
    if "length b \<le> fuel" for b st fuel
    by (simp add: firstGraphemeClusterInString_fuel_eq firstGraphemeClusterInString_eq
        firstGraphemeCluster_fuel_eq [OF that])
  have 5: "drain_fuel fuel property (NewGraphemes property s)
          = Some (drain property (NewGraphemes property s))"
    if "2 * RuneCountInString s + 1 \<le> fuel" for s fuel
  proof -
    note f = NewGraphemes_fields [of property s]
    from that have "2 * (length (codePoints (NewGraphemes property s))
        - end' (NewGraphemes property s)) + 1 \<le> fuel"
      by (simp add: f(1,4) RuneCountInString_eq [of s 0])
    from drain_fuel_eq [OF f(5) this] show ?thesis .
  qed
  from 1 2 3 4 5 RuneCountInString_le show ?thesis by blast
qed

theorem scan_loops_terminate_witness:
  "2 * RuneCountInString [0x0D, 0x0A, 0x61] + 1 \<le> 7
   \<and> drain_fuel 7 sample_property (NewGraphemes sample_property [0x0D, 0x0A, 0x61])
       = Some (drain sample_property (NewGraphemes sample_property [0x0D, 0x0A, 0x61]))
   \<and> length [0x61, 0xCC, 0x88, 0x62 :: byte] \<le> 4
   \<and> map_option fst (firstGraphemeCluster_fuel 4 sample_property [0x61, 0xCC, 0x88, 0x62] (-1))
       = Some (firstGraphemeCluster sample_property [0x61, 0xCC, 0x88, 0x62] (-1))
   \<and> firstGraphemeCluster_iter sample_property [0x61, 0xCC, 0x88, 0x62] 1 0 = Continue (3, 0)
   \<and> (1::nat) < 3 \<and> 3 < length [0x61, 0xCC, 0x88, 0x62 :: byte]"
proof -
  have a: "2 * RuneCountInString [0x0D, 0x0A, 0x61] + 1 \<le> 7" by code_simp
  have b: "length [0x61, 0xCC, 0x88, 0x62 :: byte] \<le> 4" by simp
  have c: "firstGraphemeCluster_iter sample_property [0x61, 0xCC, 0x88, 0x62] 1 0
             = Continue (3, 0)"
    by code_simp
  note t = scan_loops_terminate [of sample_property]
  from t have "\<forall>s fuel. 2 * RuneCountInString s + 1 \<le> fuel \<longrightarrow>
        drain_fuel fuel sample_property (NewGraphemes sample_property s)
          = Some (drain sample_property (NewGraphemes sample_property s))"
    by (elim conjE)
  from this [rule_format, OF a]
  have d: "drain_fuel 7 sample_property (NewGraphemes sample_property [0x0D, 0x0A, 0x61])
       = Some (drain sample_property (NewGraphemes sample_property [0x0D, 0x0A, 0x61]))" .
  from t have "\<forall>b st fuel. length b \<le> fuel \<longrightarrow>
        map_option fst (firstGraphemeCluster_fuel fuel sample_property b st)
          = Some (firstGraphemeCluster sample_property b st)
        \<and> map_option fst (firstGraphemeClusterInString_fuel fuel sample_property b st)
          = Some (firstGraphemeClusterInString sample_property b st)"
    by (elim conjE)
  from this [rule_format, OF b, of "-1"]
  have e: "map_option fst
             (firstGraphemeCluster_fuel 4 sample_property [0x61, 0xCC, 0x88, 0x62] (-1))
       = Some (firstGraphemeCluster sample_property [0x61, 0xCC, 0x88, 0x62] (-1))"
    by (rule conjunct1)
  from t have "\<forall>b n st n' st'.
        firstGraphemeCluster_iter sample_property b n st = Continue (n', st')
        \<or> firstGraphemeClusterInString_iter sample_property b n st = Continue (n', st') \<longrightarrow>
        n < n' \<and> n' < length b"
    by (elim conjE)
  from this [rule_format, OF disjI1, OF c]
  have f: "(1::nat) < 3 \<and> 3 < length [0x61, 0xCC, 0x88, 0x62 :: byte]" .
  from a b c d e f show ?thesis by (intro conjI) simp_all
qed

subsection \<open>The streaming function against the iterator\<close>

text \<open>
  C6, as the code has it. For every buffer, feeding the whole, unsplit buffer through
  firstGraphemeCluster, starting from the state -1 and handing the remainder and the
  carry-out state of each call to the next call until the remainder is empty, yields
  exactly the sequence of clusters of single-shot iteration over the buffer: the
  clusters are the byte ranges b[from:to] that Positions reports after each Next, and
  they are the results of Bytes whenever the buffer is valid UTF-8. (For a buffer cut
  in two at a byte offset the carry-out state of the first part is grAny, and the
  clusters can differ.)
\<close>

theorem streaming_matches_iterator:
  "map Inr (fst (firstGraphemeCluster_all property b (-1)))
     = map (\<lambda>h. case Positions h of Inl e \<Rightarrow> Inl e
                  | Inr p \<Rightarrow> slice b (nat (fst p)) (nat (snd p)))
         (drain property (NewGraphemes property b))
   \<and> (\<forall>rs. list_all ValidRune rs \<longrightarrow>
         map Inr (fst (firstGraphemeCluster_all property (string_of_runes rs) (-1)))
           = map Bytes (drain property (NewGraphemes property (string_of_runes rs))))"
proof -
  have 1: "map Inr (fst (firstGraphemeCluster_all property s (-1)))
     = map (\<lambda>h. case Positions h of Inl e \<Rightarrow> Inl e
                  | Inr p \<Rightarrow> slice s (nat (fst p)) (nat (snd p)))
         (drain property (NewGraphemes property s))" for s
    unfolding streaming_ranges [of property s]
    by (simp add: drain_Positions_slice cong: map_cong)
  have 2: "map Inr (fst (firstGraphemeCluster_all property (string_of_runes rs) (-1)))
           = map Bytes (drain property (NewGraphemes property (string_of_runes rs)))"
    if v: "list_all ValidRune rs" for rs
  proof -
    let ?s = "string_of_runes rs"
    have "Bytes h = Inr (take (nat (byte_offsets ?s ! end' h) - nat (byte_offsets ?s ! start h))
              (drop (nat (byte_offsets ?s ! start h)) ?s))"
      if h: "h \<in> set (drain property (NewGraphemes property ?s))" for h
    proof -
      from drain_NewGraphemes_ranges [OF h] decode_string_of_runes [OF v, of 0]
      have r: "start h < end' h" "end' h \<le> length rs" "codePoints h = rs"
        using length_map [of snd "rangeString 0 ?s"] by simp_all
      from Runes_in_range [of h] r
      have "Bytes h = Inr (string_of_runes (take (end' h - start h) (drop (start h) rs)))"
        by simp
      with string_of_runes_slice [OF v, of "start h" "end' h"] r show ?thesis by simp
    qed
    then show ?thesis
      unfolding streaming_ranges [of property ?s] by (simp cong: map_cong)
  qed
  from 1 2 show ?thesis by blast
qed

theorem streaming_matches_iterator_witness:
  "list_all ValidRune [0x61, 0x0D, 0x0A]
   \<and> string_of_runes [0x61, 0x0D, 0x0A] = [0x61, 0x0D, 0x0A]
   \<and> map Inr (fst (firstGraphemeCluster_all sample_property [0x61, 0x0D, 0x0A] (-1)))
       = map Bytes (drain sample_property (NewGraphemes sample_property [0x61, 0x0D, 0x0A]))
   \<and> fst (firstGraphemeCluster_all sample_property [0x61, 0x0D, 0x0A] (-1))
       = [ [0x61], [0x0D, 0x0A] ]"
proof -
  have v: "list_all ValidRune [0x61, 0x0D, 0x0A]" by (simp add: ValidRune_def)
  have e: "string_of_runes [0x61, 0x0D, 0x0A] = [0x61, 0x0D, 0x0A]" by code_simp
  have c: "fst (firstGraphemeCluster_all sample_property [0x61, 0x0D, 0x0A] (-1))
       = [ [0x61], [0x0D, 0x0A] ]"
    by code_simp
  from streaming_matches_iterator [of sample_property "[0x61, 0x0D, 0x0A]"]
  have "\<forall>rs. list_all ValidRune rs \<longrightarrow>
         map Inr (fst (firstGraphemeCluster_all sample_property (string_of_runes rs) (-1)))
           = map Bytes (drain sample_property (NewGraphemes sample_property (string_of_runes rs)))"
    by (rule conjunct2)
  from this [rule_format, OF v]
  have "map Inr (fst (firstGraphemeCluster_all sample_property [0x61, 0x0D, 0x0A] (-1)))
       = map Bytes (drain sample_property (NewGraphemes sample_property [0x61, 0x0D, 0x0A]))"
    unfolding e .
  with v e c show ?thesis by (intro conjI)
qed

theorem streaming_split_counterexample:
  "firstGraphemeCluster_all sample_property [0x0D] (-1) = ([ [0x0D] ], 0)
   \<and> firstGraphemeCluster_all sample_property [0x0A] 0 = ([ [0x0A] ], 0)
   \<and> fst (firstGraphemeCluster_all sample_property ([0x0D] @ [0x0A]) (-1)) = [ [0x0D, 0x0A] ]
   \<and> map Bytes (drain sample_property (NewGraphemes sample_property ([0x0D] @ [0x0A])))
       = [Inr [0x0D, 0x0A] ]
   \<and> fst (firstGraphemeCluster_all sample_property [0x0D] (-1))
       @ fst (firstGraphemeCluster_all sample_property [0x0A]
               (snd (firstGraphemeCluster_all sample_property [0x0D] (-1))))
       \<noteq> fst (firstGraphemeCluster_all sample_property ([0x0D] @ [0x0A]) (-1))"
proof -
  have a: "firstGraphemeCluster_all sample_property [0x0D] (-1) = ([ [0x0D] ], 0)"
    by code_simp
  have b: "firstGraphemeCluster_all sample_property [0x0A] 0 = ([ [0x0A] ], 0)"
    by code_simp
  have c: "fst (firstGraphemeCluster_all sample_property ([0x0D] @ [0x0A]) (-1))
             = [ [0x0D, 0x0A] ]"
    by code_simp
  have d: "map Bytes (drain sample_property (NewGraphemes sample_property ([0x0D] @ [0x0A])))
       = [Inr [0x0D, 0x0A] ]"
    by code_simp
  have e: "fst (firstGraphemeCluster_all sample_property [0x0D] (-1))
       @ fst (firstGraphemeCluster_all sample_property [0x0A]
               (snd (firstGraphemeCluster_all sample_property [0x0D] (-1))))
       \<noteq> fst (firstGraphemeCluster_all sample_property ([0x0D] @ [0x0A]) (-1))"
    unfolding c unfolding a by (simp add: b)
  from a b c d e show ?thesis by (intro conjI)
qed

end
